theory Spec2Isabelle
  imports
    Main
    "HOL-Library.Char_ord"
    "HOL-Library.List_Lexorder"
    "HOL-Library.Multiset"
begin

section \<open>Python strings\<close>

text \<open>
  A Python \<open>str\<close> is modelled as a \<open>string\<close>, a list of 8-bit characters read as
  code points 0 to 255.  Comparison of strings is lexicographic on code points, as
  Python's \<open>sorted\<close> on \<open>str\<close> is.
\<close>

datatype py_error = StopIteration | KeyError | IndexError | ValueError

definition py_isspace :: "char \<Rightarrow> bool" where
  \<comment> \<open>\<open>str.isspace\<close> on the code points below 256\<close>
  "py_isspace c =
     (let n = (of_char c :: nat)
      in (9 \<le> n \<and> n \<le> 13) \<or> (28 \<le> n \<and> n \<le> 32) \<or> n = 133 \<or> n = 160)"

definition py_strip_with :: "(char \<Rightarrow> bool) \<Rightarrow> string \<Rightarrow> string" where
  "py_strip_with P s = rev (dropWhile P (rev (dropWhile P s)))"

definition py_rstrip_with :: "(char \<Rightarrow> bool) \<Rightarrow> string \<Rightarrow> string" where
  "py_rstrip_with P s = rev (dropWhile P (rev s))"

definition py_strip :: "string \<Rightarrow> string" where
  \<comment> \<open>\<open>s.strip()\<close>\<close>
  "py_strip s = py_strip_with py_isspace s"

definition py_lower_char :: "char \<Rightarrow> char" where
  \<comment> \<open>\<open>str.lower\<close> on one code point below 256: A-Z and the Latin-1 capitals\<close>
  "py_lower_char c =
     (let n = (of_char c :: nat)
      in if (65 \<le> n \<and> n \<le> 90) \<or> (192 \<le> n \<and> n \<le> 222 \<and> n \<noteq> 215)
         then char_of (n + 32) else c)"

definition py_lower :: "string \<Rightarrow> string" where
  "py_lower s = map py_lower_char s"

fun py_startswith :: "string \<Rightarrow> string \<Rightarrow> bool" where
  \<comment> \<open>\<open>s.startswith(p)\<close>, written \<open>py_startswith p s\<close>\<close>
  "py_startswith [] s = True"
| "py_startswith (p # ps) [] = False"
| "py_startswith (p # ps) (c # cs) = (p = c \<and> py_startswith ps cs)"

fun py_contains :: "string \<Rightarrow> string \<Rightarrow> bool" where
  \<comment> \<open>\<open>t in s\<close>, written \<open>py_contains t s\<close>\<close>
  "py_contains t [] = (t = [])"
| "py_contains t (c # cs) = (py_startswith t (c # cs) \<or> py_contains t cs)"

fun py_join :: "string \<Rightarrow> string list \<Rightarrow> string" where
  \<comment> \<open>\<open>sep.join(xs)\<close>\<close>
  "py_join sep [] = []"
| "py_join sep [x] = x"
| "py_join sep (x # y # ys) = x @ sep @ py_join sep (y # ys)"

fun py_replace :: "string \<Rightarrow> string \<Rightarrow> string \<Rightarrow> string" where
  \<comment> \<open>\<open>s.replace(old, new)\<close> for a non-empty \<open>old\<close>, written \<open>py_replace old new s\<close>:
      the occurrences are taken from the left, without overlap\<close>
  "py_replace old new [] = []"
| "py_replace old new (c # cs) =
     (if old \<noteq> [] \<and> py_startswith old (c # cs)
      then new @ py_replace old new (drop (length old) (c # cs))
      else c # py_replace old new cs)"

fun py_split1 :: "string \<Rightarrow> string \<Rightarrow> string \<Rightarrow> string list" where
  \<comment> \<open>\<open>s.split(sep, 1)\<close> for a non-empty \<open>sep\<close>, written \<open>py_split1 sep acc s\<close> with
      \<open>acc\<close> the characters already passed\<close>
  "py_split1 sep acc [] = [acc]"
| "py_split1 sep acc (c # cs) =
     (if py_startswith sep (c # cs) then [acc, drop (length sep) (c # cs)]
      else py_split1 sep (acc @ [c]) cs)"

definition digit_char :: "nat \<Rightarrow> char" where
  "digit_char d = char_of (48 + d)"

fun str_nat :: "nat \<Rightarrow> string" where
  \<comment> \<open>\<open>str(n)\<close> for a non-negative integer\<close>
  "str_nat n = (if n < 10 then [digit_char n] else str_nat (n div 10) @ [digit_char (n mod 10)])"

declare str_nat.simps [simp del]


section \<open>Python dictionaries\<close>

text \<open>
  A \<open>dict\<close> keeps its keys in insertion order, and several loops of the program depend on
  that order, so a dictionary is an association list: assigning to a present key replaces
  the value in place, assigning to an absent key appends the pair.
\<close>

type_synonym ('k, 'v) pydict = "('k \<times> 'v) list"

fun dict_set :: "('k, 'v) pydict \<Rightarrow> 'k \<Rightarrow> 'v \<Rightarrow> ('k, 'v) pydict" where
  \<comment> \<open>\<open>d[k] = v\<close>\<close>
  "dict_set [] k v = [(k, v)]"
| "dict_set ((k', v') # d) k v = (if k' = k then (k, v) # d else (k', v') # dict_set d k v)"

definition dict_keys :: "('k, 'v) pydict \<Rightarrow> 'k list" where
  "dict_keys d = map fst d"

definition dict_get :: "('k, 'v) pydict \<Rightarrow> 'k \<Rightarrow> 'v option" where
  \<comment> \<open>\<open>d.get(k)\<close>\<close>
  "dict_get d k = map_of d k"

definition dict_of_pairs :: "('k \<times> 'v) list \<Rightarrow> ('k, 'v) pydict" where
  \<comment> \<open>\<open>dict(pairs)\<close>: a later pair overwrites an earlier one with the same key\<close>
  "dict_of_pairs ps = fold (\<lambda>(k, v) d. dict_set d k v) ps []"

section \<open>The style harvester (harvest\_all\_styles.py)\<close>

definition is_key_char :: "char \<Rightarrow> bool" where
  \<comment> \<open>the class \<open>[a-zA-Z0-9_.]\<close>\<close>
  "is_key_char c =
     (let n = (of_char c :: nat)
      in (97 \<le> n \<and> n \<le> 122) \<or> (65 \<le> n \<and> n \<le> 90) \<or> (48 \<le> n \<and> n \<le> 57)
         \<or> c = CHR ''_'' \<or> c = CHR ''.'')"

definition not_semi :: "char \<Rightarrow> bool" where
  "not_semi c = (c \<noteq> CHR '';'')"

function style_kv_findall :: "string \<Rightarrow> (string \<times> string) list" where
  \<comment> \<open>\<open>STYLE_KV_RE.findall(s)\<close> for \<open>([a-zA-Z0-9_.]+)=([^;]*);?\<close>: at each position the
      longest run of key characters must be followed by \<open>=\<close>; the value runs to the next
      \<open>;\<close>, which is consumed; where no match starts, the scan moves one character on\<close>
  "style_kv_findall [] = []"
| "style_kv_findall (c # cs) =
     (let k = takeWhile is_key_char (c # cs); r = dropWhile is_key_char (c # cs)
      in if k \<noteq> [] \<and> py_startswith ''='' r
         then let v = takeWhile not_semi (tl r); r' = dropWhile not_semi (tl r)
              in (k, v) # style_kv_findall (tl r')
         else style_kv_findall cs)"
  by pat_completeness auto
termination
proof (relation "measure length")
  show "wf (measure length)" by simp
next
  fix c :: char and cs k r v r'
  assume r: "r = dropWhile is_key_char (c # cs)"
    and k: "k = takeWhile is_key_char (c # cs)"
    and c: "k \<noteq> [] \<and> py_startswith ''='' r"
    and r': "r' = dropWhile not_semi (tl r)"
  from k c have "is_key_char c" by (auto split: if_splits)
  with r have "length r \<le> length cs" by (simp add: length_dropWhile_le)
  moreover have "length (tl r') \<le> length (tl r)"
    unfolding r' using length_dropWhile_le [of not_semi "tl r"] by simp
  moreover have "length (tl r) \<le> length r" by simp
  ultimately show "(tl r', c # cs) \<in> measure length" by simp
next
  fix c :: char and cs k r
  show "(cs, c # cs) \<in> measure length" by simp
qed

declare style_kv_findall.simps [simp del]

definition normalize_style :: "string \<Rightarrow> string" where
  "normalize_style style =
     (let kv = style_kv_findall style;
          kv = map (\<lambda>(k, v). (py_strip k, py_strip v)) (filter (\<lambda>(k, v). py_strip k \<noteq> []) kv);
          kv = sort_key (\<lambda>x. py_lower (fst x)) kv
      in py_join '';'' (map (\<lambda>(k, v). k @ ''='' @ v) kv) @ (if kv \<noteq> [] then '';'' else ''''))"

definition get_or_empty :: "(string, string) pydict \<Rightarrow> string \<Rightarrow> string" where
  \<comment> \<open>\<open>d.get(k, '')\<close>\<close>
  "get_or_empty d k = (case dict_get d k of None \<Rightarrow> '''' | Some v \<Rightarrow> v)"

definition guess_key_from_style :: "string \<Rightarrow> bool \<Rightarrow> py_error + string" where
  "guess_key_from_style style is_edge =
     (let d = dict_of_pairs (style_kv_findall style)
      in if \<not> is_edge then
           (let shape = get_or_empty d ''shape''
            in if py_startswith ''mxgraph.'' shape then
                 (case py_split1 ''mxgraph.'' [] shape of
                    [a, b] \<Rightarrow> Inr b
                  | _ \<Rightarrow> Inl IndexError)
               else if shape \<noteq> [] then Inr (''shape.'' @ shape)
               else Inr ''shape.rect'')
         else
           (let est = get_or_empty d ''edgeStyle''
            in if est \<noteq> [] then Inr (''edge.'' @ py_replace ''EdgeStyle'' [] est)
               else
                 (let arr = (case dict_get d ''endArrow'' of
                               Some a \<Rightarrow> if a \<noteq> [] then Some a else dict_get d ''startArrow''
                             | None \<Rightarrow> dict_get d ''startArrow'')
                  in case arr of
                       Some a \<Rightarrow> if a \<noteq> [] then Inr (''edge.'' @ a) else Inr ''edge.orthogonal''
                     | None \<Rightarrow> Inr ''edge.orthogonal'')))"

definition is_safe_char :: "char \<Rightarrow> bool" where
  \<comment> \<open>the class \<open>[a-z0-9_.\-]\<close>\<close>
  "is_safe_char c =
     (let n = (of_char c :: nat)
      in (97 \<le> n \<and> n \<le> 122) \<or> (48 \<le> n \<and> n \<le> 57)
         \<or> c = CHR ''_'' \<or> c = CHR ''.'' \<or> c = CHR ''-'')"

function sub_runs :: "(char \<Rightarrow> bool) \<Rightarrow> string \<Rightarrow> string" where
  \<comment> \<open>\<open>re.sub(r'[P]+', '-', s)\<close>: every maximal run of characters of the class
      becomes one hyphen\<close>
  "sub_runs P [] = []"
| "sub_runs P (c # cs) =
     (if P c then CHR ''-'' # sub_runs P (dropWhile P cs) else c # sub_runs P cs)"
  by pat_completeness auto
termination
  by (relation "measure (\<lambda>(P, s). length s)")
     (auto simp: length_dropWhile_le less_Suc_eq_le)

definition safe_key :: "string \<Rightarrow> string" where
  "safe_key key0 =
     (let key = py_lower (py_strip key0);
          key = sub_runs (\<lambda>c. \<not> is_safe_char c) key;
          key = py_strip_with (\<lambda>c. c = CHR ''-'') (sub_runs (\<lambda>c. c = CHR ''-'') key)
      in if key \<noteq> [] then key else ''style'')"

fun first_same_style :: "(string, string) pydict \<Rightarrow> string \<Rightarrow> string option" where
  \<comment> \<open>the loop \<open>for ek, es in mapping.items(): if normalize_style(es) == s_norm: return ek\<close>;
      \<open>None\<close> when the loop ends without returning\<close>
  "first_same_style [] s_norm = None"
| "first_same_style ((ek, es) # m) s_norm =
     (if normalize_style es = s_norm then Some ek else first_same_style m s_norm)"

definition nat_of_digits :: "string \<Rightarrow> nat" where
  "nat_of_digits s = foldl (\<lambda>a c. 10 * a + (of_char c - 48)) 0 s"

lemma nat_of_digits_str_nat: "nat_of_digits (str_nat n) = n"
proof (induction n rule: str_nat.induct)
  case (1 n)
  show ?case
  proof (cases "n < 10")
    case True
    then show ?thesis
      by (simp add: str_nat.simps [of n] nat_of_digits_def digit_char_def)
  next
    case False
    with "1" have "nat_of_digits (str_nat (n div 10)) = n div 10" by simp
    moreover have "(of_char (digit_char (n mod 10)) :: nat) - 48 = n mod 10"
      by (simp add: digit_char_def)
    ultimately show ?thesis
      using False by (simp add: str_nat.simps [of n] nat_of_digits_def)
  qed
qed

lemma str_nat_inj: "str_nat m = str_nat n \<Longrightarrow> m = n"
  by (metis nat_of_digits_str_nat)

definition suffixed_key :: "string \<Rightarrow> nat \<Rightarrow> string" where
  \<comment> \<open>\<open>f"{k}-{i}"\<close>\<close>
  "suffixed_key k i = k @ ''-'' @ str_nat i"

lemma suffixed_key_inj: "inj (suffixed_key k)"
  by (auto simp: inj_def suffixed_key_def dest: str_nat_inj)

lemma finite_suffixes: "finite {j. suffixed_key k j \<in> set (ks :: string list)}"
proof -
  have "finite (suffixed_key k -` set ks)"
    by (rule finite_vimageI [OF _ suffixed_key_inj]) simp
  then show ?thesis by (simp add: vimage_def)
qed

function add_unique_probe ::
  "(string, string) pydict \<Rightarrow> string \<Rightarrow> string \<Rightarrow> string \<Rightarrow> nat
     \<Rightarrow> string \<times> (string, string) pydict" where
  \<comment> \<open>the loop \<open>while f"{k}-{i}" in mapping\<close> and the assignment after it\<close>
  "add_unique_probe mapping k style s_norm i =
     (case dict_get mapping (suffixed_key k i) of
        None \<Rightarrow> (suffixed_key k i, dict_set mapping (suffixed_key k i) style)
      | Some es \<Rightarrow>
          if normalize_style es = s_norm then (suffixed_key k i, mapping)
          else add_unique_probe mapping k style s_norm (i + 1))"
  by pat_completeness auto
termination
proof (relation "measure (\<lambda>(mapping, k, style, s_norm, i).
          card {j. i \<le> j \<and> suffixed_key k j \<in> set (dict_keys mapping)})")
  show "wf (measure (\<lambda>(mapping, k, style, s_norm, i).
          card {j. i \<le> j \<and> suffixed_key k j \<in> set (dict_keys mapping)}))"
    by simp
next
  fix mapping :: "(string, string) pydict" and k style s_norm :: string and i :: nat and es
  assume "dict_get mapping (suffixed_key k i) = Some es"
  then have mem: "suffixed_key k i \<in> set (dict_keys mapping)"
    by (auto simp: dict_get_def dict_keys_def dest: map_of_SomeD intro: rev_image_eqI)
  let ?A = "\<lambda>i. {j. i \<le> j \<and> suffixed_key k j \<in> set (dict_keys mapping)}"
  have fin: "finite (?A i)"
    using finite_suffixes [of k "dict_keys mapping"] by simp
  have "i \<in> ?A i" and "i \<notin> ?A (i + 1)" and "?A (i + 1) \<subseteq> ?A i"
    using mem by auto
  then have "?A (i + 1) \<subset> ?A i"
    by blast
  then have "card (?A (i + 1)) < card (?A i)"
    using fin by (rule psubset_card_mono [rotated])
  then show "((mapping, k, style, s_norm, i + 1), (mapping, k, style, s_norm, i))
      \<in> measure (\<lambda>(mapping, k, style, s_norm, i).
          card {j. i \<le> j \<and> suffixed_key k j \<in> set (dict_keys mapping)})"
    by simp
qed

declare add_unique_probe.simps [simp del]

definition add_unique ::
  "(string, string) pydict \<Rightarrow> string \<Rightarrow> string \<Rightarrow> string \<times> (string, string) pydict" where
  \<comment> \<open>returns the key and the mapping as the call leaves it\<close>
  "add_unique mapping base_key style =
     (let k = safe_key base_key; s_norm = normalize_style style
      in case first_same_style mapping s_norm of
           Some ek \<Rightarrow> (ek, mapping)
         | None \<Rightarrow>
             if k \<notin> set (dict_keys mapping) then (k, dict_set mapping k style)
             else add_unique_probe mapping k style s_norm 1)"

text \<open>
  The style string that consists of the given attribute=value pairs, in their order, each
  closed by the pair separator; and the pairs such a string can hold: a non-empty key of
  key characters and a value without the separator.
\<close>

definition style_of_pairs :: "(string \<times> string) list \<Rightarrow> string" where
  "style_of_pairs ps = concat (map (\<lambda>(k, v). k @ ''='' @ v @ '';'') ps)"

definition wf_pair :: "string \<times> string \<Rightarrow> bool" where
  "wf_pair p = (fst p \<noteq> [] \<and> list_all is_key_char (fst p) \<and> list_all not_semi (snd p))"

text \<open>
  The value a style gives to an attribute, as \<open>guess_key_from_style\<close> reads it from
  \<open>dict(STYLE_KV_RE.findall(style))\<close>; \<open>nonempty_attr\<close> is that value when Python counts it
  as true.
\<close>

definition style_attr :: "string \<Rightarrow> string \<Rightarrow> string option" where
  "style_attr style k = dict_get (dict_of_pairs (style_kv_findall style)) k"

text \<open>
  As the specification words the edge key: "strip a trailing suffix". This definition
  follows the specification, not the source, and is compared with \<open>py_replace\<close> below.
\<close>

definition spec_strip_trailing :: "string \<Rightarrow> string \<Rightarrow> string" where
  "spec_strip_trailing suf s =
     (if length suf \<le> length s \<and> drop (length s - length suf) s = suf
      then take (length s - length suf) s else s)"

definition nonempty_attr :: "string \<Rightarrow> string \<Rightarrow> string option" where
  "nonempty_attr style k = (case style_attr style k of Some v \<Rightarrow> if v \<noteq> [] then Some v else None | None \<Rightarrow> None)"

section \<open>The diagram generator (prompt2drawio.py)\<close>

subsection \<open>Escaping\<close>

definition html_escape :: "string \<Rightarrow> string" where
  \<comment> \<open>\<open>html.escape(s or "", quote=True)\<close> of the standard library: five replacements,
      the ampersand first\<close>
  "html_escape s =
     py_replace [CHR 0x27] ''&#x27;''
       (py_replace [CHR 0x22] ''&quot;''
          (py_replace ''>'' ''&gt;''
             (py_replace ''<'' ''&lt;''
                (py_replace ''&'' ''&amp;'' s))))"

definition xml_attr :: "string option \<Rightarrow> string" where
  "xml_attr s0 =
     (case s0 of
        None \<Rightarrow> ''''
      | Some s \<Rightarrow>
          py_replace [CHR 0x22] ''&quot;''
            (py_replace ''>'' ''&gt;''
               (py_replace ''<'' ''&lt;''
                  (py_replace ''&'' ''&amp;'' s))))"

text \<open>
  Modelled from the spec: the two unescape passes, which the repository does not contain
  (the reader of the document applies them). The attribute pass decodes the predefined
  entities of XML, the content pass the entities \<open>html.escape\<close> writes; both scan from the
  left and leave any other text as it is.
\<close>

fun xml_unescape :: "string \<Rightarrow> string" where
  \<comment> \<open>Modelled from the spec: the unescape pass that reads an attribute value back\<close>
  "xml_unescape [] = []"
| "xml_unescape (c # cs) =
     (if c = CHR ''&'' \<and> py_startswith ''amp;'' cs then CHR ''&'' # xml_unescape (drop 4 cs)
      else if c = CHR ''&'' \<and> py_startswith ''lt;'' cs then CHR ''<'' # xml_unescape (drop 3 cs)
      else if c = CHR ''&'' \<and> py_startswith ''gt;'' cs then CHR ''>'' # xml_unescape (drop 3 cs)
      else if c = CHR ''&'' \<and> py_startswith ''quot;'' cs then CHR 0x22 # xml_unescape (drop 5 cs)
      else if c = CHR ''&'' \<and> py_startswith ''apos;'' cs then CHR 0x27 # xml_unescape (drop 5 cs)
      else c # xml_unescape cs)"

fun html_unescape :: "string \<Rightarrow> string" where
  \<comment> \<open>Modelled from the spec: the unescape pass that reads markup content back\<close>
  "html_unescape [] = []"
| "html_unescape (c # cs) =
     (if c = CHR ''&'' \<and> py_startswith ''amp;'' cs then CHR ''&'' # html_unescape (drop 4 cs)
      else if c = CHR ''&'' \<and> py_startswith ''lt;'' cs then CHR ''<'' # html_unescape (drop 3 cs)
      else if c = CHR ''&'' \<and> py_startswith ''gt;'' cs then CHR ''>'' # html_unescape (drop 3 cs)
      else if c = CHR ''&'' \<and> py_startswith ''quot;'' cs then CHR 0x22 # html_unescape (drop 5 cs)
      else if c = CHR ''&'' \<and> py_startswith ''#x27;'' cs then CHR 0x27 # html_unescape (drop 5 cs)
      else c # html_unescape cs)"

text \<open>What the two escapes write for one character.\<close>

definition xml_attr_char :: "char \<Rightarrow> string" where
  "xml_attr_char c =
     (if c = CHR ''&'' then ''&amp;'' else if c = CHR ''<'' then ''&lt;''
      else if c = CHR ''>'' then ''&gt;'' else if c = CHR 0x22 then ''&quot;'' else [c])"

definition html_escape_char :: "char \<Rightarrow> string" where
  "html_escape_char c =
     (if c = CHR ''&'' then ''&amp;'' else if c = CHR ''<'' then ''&lt;''
      else if c = CHR ''>'' then ''&gt;'' else if c = CHR 0x22 then ''&quot;''
      else if c = CHR 0x27 then ''&#x27;'' else [c])"

subsection \<open>Style resolution\<close>

definition style_from_key_or_literal ::
  "string option \<Rightarrow> (string, string) pydict \<Rightarrow> string option" where
  "style_from_key_or_literal arg styles =
     (case arg of
        None \<Rightarrow> None
      | Some s \<Rightarrow>
          if s = [] then None
          else (let a = py_strip s
                in if py_startswith ''shape='' (py_lower a) \<or> py_contains '';'' a then Some a
                   else dict_get styles a))"

fun find_key :: "string list \<Rightarrow> string list \<Rightarrow> string list \<Rightarrow> string option" where
  \<comment> \<open>the loop of \<open>_find_style\<close> over the keys, left at the first match\<close>
  "find_key inc exc [] = None"
| "find_key inc exc (k # ks) =
     (let lk = py_lower k
      in if list_all (\<lambda>tok. py_contains tok lk) inc \<and> \<not> list_ex (\<lambda>tok. py_contains tok lk) exc
         then Some k else find_key inc exc ks)"

definition find_style ::
  "(string, string) pydict \<Rightarrow> string list \<Rightarrow> string list \<Rightarrow> string option" where
  \<comment> \<open>\<open>_find_style\<close>\<close>
  "find_style styles include exclude =
     (if styles = [] then None
      else (let inc = map py_lower include; exc = map py_lower exclude
            in case find_key inc exc (dict_keys styles) of
                 None \<Rightarrow> None
               | Some best_key \<Rightarrow> if best_key \<noteq> [] then dict_get styles best_key else None))"

definition at_html1 :: "string \<Rightarrow> bool" where
  \<comment> \<open>\<open>html=1(;|$)\<close> matches at the start of \<open>s\<close>; \<open>$\<close> also matches before a final
      newline\<close>
  "at_html1 s =
     (py_startswith ''html=1'' s \<and>
      (let r = drop 6 s in r = [] \<or> r = [CHR 0x0A] \<or> py_startswith '';'' r))"

fun semi_html1 :: "string \<Rightarrow> bool" where
  \<comment> \<open>\<open>;html=1(;|$)\<close> matches somewhere in \<open>s\<close>\<close>
  "semi_html1 [] = False"
| "semi_html1 (c # cs) = ((c = CHR '';'' \<and> at_html1 cs) \<or> semi_html1 cs)"

definition ensure_html :: "string \<Rightarrow> string" where
  "ensure_html style =
     (if at_html1 style \<or> semi_html1 style then style
      else py_rstrip_with (\<lambda>c. c = CHR '';'') style @ '';html=1;'')"

definition default_vertex_style :: "string \<Rightarrow> bool \<Rightarrow> string" where
  "default_vertex_style shape html =
     (let base = (if html then ''whiteSpace=wrap;html=1;'' else ''whiteSpace=wrap;html=1;'')
      in if shape = ''rhombus'' then ''shape=rhombus;rounded=0;'' @ base
         else if shape = ''round'' then ''rounded=1;'' @ base
         else ''rounded=0;'' @ base)"


definition if_truthy :: "string option \<Rightarrow> string option" where
  \<comment> \<open>the test \<open>if s:\<close> on an optional string: \<open>None\<close> and the empty string fail it\<close>
  "if_truthy s = (case s of None \<Rightarrow> None | Some v \<Rightarrow> if v \<noteq> [] then Some v else None)"

fun first_pref ::
  "(string, string) pydict \<Rightarrow> string list \<Rightarrow> string list list \<Rightarrow> string option" where
  \<comment> \<open>the loop \<open>for inc in pref_keys\<close>, left at the first match that passes \<open>if s:\<close>\<close>
  "first_pref styles exclude [] = None"
| "first_pref styles exclude (inc # pref_keys) =
     (case if_truthy (find_style styles inc exclude) of
        Some s \<Rightarrow> Some s
      | None \<Rightarrow> first_pref styles exclude pref_keys)"

definition style_for_vertex ::
  "string \<Rightarrow> bool \<Rightarrow> (string, string) pydict \<Rightarrow> string list list \<Rightarrow> string option \<Rightarrow> string" where
  "style_for_vertex shape html styles pref_keys override =
     (case if_truthy (style_from_key_or_literal override styles) of
        Some s \<Rightarrow> if html then ensure_html s else s
      | None \<Rightarrow>
          (case first_pref styles [''edge''] pref_keys of
             Some s \<Rightarrow> if html then ensure_html s else s
           | None \<Rightarrow> default_vertex_style shape html))"


subsection \<open>Graph specifications\<close>

text \<open>
  The generic specification the builders hand to the layout and to the serializer: a
  dictionary with a title, a direction, a list of nodes and a list of edges. Every node
  the builders produce has an id, a label and a shape; the key \<open>html\<close> is absent from the
  nodes of \<open>build_generic\<close>, which the serializer reads as \<open>False\<close>.
\<close>

record node =
  n_id :: string
  n_label :: string
  n_shape :: string
  n_html :: bool

record edge =
  e_from :: string
  e_to :: string
  e_label :: string

record graph_spec =
  s_title :: string
  s_direction :: string
  s_nodes :: "node list"
  s_edges :: "edge list"

subsection \<open>The entity-relation converter\<close>

record er_attribute =
  a_name :: string
  a_type :: string
  a_pk :: bool
  a_unique :: bool
  a_nullable :: bool

record er_entity =
  en_name :: string
  en_attributes :: "er_attribute list"

record er_relation =
  r_from :: string
  r_to :: string
  r_cardinality :: string
  r_name :: string

record er_spec =
  er_title :: string
  er_direction :: string
  er_entities :: "er_entity list"
  er_relations :: "er_relation list"

definition er_row :: "er_attribute \<Rightarrow> string" where
  "er_row a =
     (let flags = (if a_pk a then [''PK''] else []) @ (if a_unique a then [''UQ''] else [])
                  @ (if \<not> a_nullable a then [''NOT NULL''] else []);
          flg = (if flags \<noteq> [] then '' ('' @ py_join '', '' flags @ '')'' else '''')
      in html_escape (a_name a) @ '': '' @ html_escape (a_type a) @ flg)"

definition er_label :: "er_entity \<Rightarrow> string" where
  "er_label e =
     (let header = ''<b>'' @ html_escape (en_name e) @ ''</b>'';
          rows = map er_row (en_attributes e);
          body = (if rows \<noteq> [] then py_join ''<br/>'' rows else ''<i>(sem atributos)</i>'')
      in header @ ''<hr/>'' @ body)"

fun er_entities_loop ::
  "nat \<Rightarrow> er_entity list \<Rightarrow> (string, string) pydict \<times> node list
     \<Rightarrow> (string, string) pydict \<times> node list" where
  \<comment> \<open>\<open>for i, e in enumerate(d["entities"], 1)\<close>, on \<open>name_to_id\<close> and \<open>nodes\<close>\<close>
  "er_entities_loop i [] st = st"
| "er_entities_loop i (e # es) (name_to_id, nodes) =
     (let nid = ''E'' @ str_nat i
      in er_entities_loop (i + 1) es
           (dict_set name_to_id (en_name e) nid,
            nodes @ [\<lparr>n_id = nid, n_label = er_label e, n_shape = ''rect'', n_html = True\<rparr>]))"

definition splitf :: "string \<Rightarrow> py_error + string \<times> string" where
  \<comment> \<open>\<open>s.split(".", 1) if "." in s else (s, "id")\<close>, unpacked into two names\<close>
  "splitf s =
     (if py_contains ''.'' s then
        (case py_split1 ''.'' [] s of [a, b] \<Rightarrow> Inr (a, b) | _ \<Rightarrow> Inl ValueError)
      else Inr (s, ''id''))"

definition er_edge_label :: "er_relation \<Rightarrow> string" where
  "er_edge_label r =
     (let lbl = py_strip (r_name r); card = py_strip (r_cardinality r)
      in if card \<noteq> [] \<and> lbl = [] then card
         else if lbl \<noteq> [] \<and> card \<noteq> [] then lbl @ '' ('' @ card @ '')''
         else lbl)"

fun er_relations_loop ::
  "(string, string) pydict \<Rightarrow> er_relation list \<Rightarrow> edge list \<Rightarrow> py_error + edge list" where
  \<comment> \<open>\<open>for r in d["relations"]\<close>, on \<open>edges\<close>\<close>
  "er_relations_loop name_to_id [] edges = Inr edges"
| "er_relations_loop name_to_id (r # rs) edges =
     (case splitf (r_from r) of
        Inl err \<Rightarrow> Inl err
      | Inr (a, _) \<Rightarrow>
          (case splitf (r_to r) of
             Inl err \<Rightarrow> Inl err
           | Inr (b, _) \<Rightarrow>
               (case dict_get name_to_id a of
                  None \<Rightarrow> er_relations_loop name_to_id rs edges
                | Some ia \<Rightarrow>
                    (case dict_get name_to_id b of
                       None \<Rightarrow> er_relations_loop name_to_id rs edges
                     | Some ib \<Rightarrow>
                         er_relations_loop name_to_id rs
                           (edges @ [\<lparr>e_from = ia, e_to = ib, e_label = er_edge_label r\<rparr>])))))"

definition nodes_edges_er :: "er_spec \<Rightarrow> py_error + graph_spec" where
  "nodes_edges_er d =
     (let (name_to_id, nodes) = er_entities_loop 1 (er_entities d) ([], [])
      in case er_relations_loop name_to_id (er_relations d) [] of
           Inl err \<Rightarrow> Inl err
         | Inr edges \<Rightarrow>
             Inr \<lparr>s_title = er_title d, s_direction = er_direction d,
                  s_nodes = nodes, s_edges = edges\<rparr>)"

subsection \<open>The graph of a specification\<close>

definition placeholder :: "string \<Rightarrow> node" where
  \<comment> \<open>\<open>{"id": i, "label": i, "shape": "rect", "html": True}\<close>\<close>
  "placeholder i = \<lparr>n_id = i, n_label = i, n_shape = ''rect'', n_html = True\<rparr>"

definition dict_setdefault :: "('k, 'v) pydict \<Rightarrow> 'k \<Rightarrow> 'v \<Rightarrow> ('k, 'v) pydict" where
  \<comment> \<open>\<open>d.setdefault(k, v)\<close>, for its effect on \<open>d\<close>\<close>
  "dict_setdefault d k v = (if k \<in> set (dict_keys d) then d else d @ [(k, v)])"

fun build_graph_loop ::
  "edge list \<Rightarrow> (string, node) pydict \<times> (string, nat) pydict
     \<Rightarrow> (string, node) pydict \<times> (string, nat) pydict" where
  \<comment> \<open>\<open>for e in spec["edges"]\<close>, on \<open>nodes_by_id\<close> and \<open>indegree\<close>\<close>
  "build_graph_loop [] st = st"
| "build_graph_loop (e # es) (nodes_by_id, indegree) =
     (let (nodes_by_id, indegree) =
            (case dict_get indegree (e_to e) of
               Some d \<Rightarrow> (nodes_by_id, dict_set indegree (e_to e) (d + 1))
             | None \<Rightarrow>
                 (dict_setdefault nodes_by_id (e_to e) (placeholder (e_to e)),
                  dict_set indegree (e_to e) 1));
          (nodes_by_id, indegree) =
            (if e_from e \<notin> set (dict_keys nodes_by_id)
             then (dict_setdefault nodes_by_id (e_from e) (placeholder (e_from e)),
                   dict_setdefault indegree (e_from e) 0)
             else (nodes_by_id, indegree))
      in build_graph_loop es (nodes_by_id, indegree))"

definition build_graph :: "graph_spec \<Rightarrow> (string, node) pydict \<times> (string, nat) pydict" where
  "build_graph spec =
     (let nodes_by_id = dict_of_pairs (map (\<lambda>n. (n_id n, n)) (s_nodes spec));
          indegree = map (\<lambda>nid. (nid, 0)) (dict_keys nodes_by_id)
      in build_graph_loop (s_edges spec) (nodes_by_id, indegree))"


definition er_entity_of :: "string \<Rightarrow> string" where
  \<comment> \<open>the entity an end of a relation names: the text before its first dot\<close>
  "er_entity_of s = takeWhile (\<lambda>c. c \<noteq> CHR ''.'') s"

definition er_name_to_id :: "er_spec \<Rightarrow> (string, string) pydict" where
  \<comment> \<open>\<open>name_to_id\<close> as the loop over the entities leaves it\<close>
  "er_name_to_id d = fst (er_entities_loop 1 (er_entities d) ([], []))"

definition er_edge :: "(string, string) pydict \<Rightarrow> er_relation \<Rightarrow> edge option" where
  \<comment> \<open>the edge of a relation between two declared entities, and none otherwise\<close>
  "er_edge name_to_id r =
     (case (dict_get name_to_id (er_entity_of (r_from r)),
            dict_get name_to_id (er_entity_of (r_to r))) of
        (Some ia, Some ib) \<Rightarrow> Some \<lparr>e_from = ia, e_to = ib, e_label = er_edge_label r\<rparr>
      | _ \<Rightarrow> None)"

subsection \<open>Layered layout\<close>

definition NODE_W :: int where "NODE_W = 240"
definition NODE_H :: int where "NODE_H = 96"
definition H_GAP :: int where "H_GAP = 200"
definition V_GAP :: int where "V_GAP = 160"

definition adj_get :: "(string, string list) pydict \<Rightarrow> string \<Rightarrow> string list" where
  \<comment> \<open>\<open>adj.get(u, [])\<close>\<close>
  "adj_get adj u = (case dict_get adj u of None \<Rightarrow> [] | Some vs \<Rightarrow> vs)"

definition build_adj :: "edge list \<Rightarrow> (string, string list) pydict" where
  \<comment> \<open>\<open>for e in spec["edges"]: adj[e["from"]].append(e["to"])\<close> on a
      \<open>defaultdict(list)\<close>\<close>
  "build_adj es = fold (\<lambda>e adj. dict_set adj (e_from e) (adj_get adj (e_from e) @ [e_to e])) es []"

definition initial_queue ::
  "(string, node) pydict \<Rightarrow> (string, nat) pydict \<Rightarrow> py_error + string list" where
  \<comment> \<open>\<open>deque([nid for nid, d in indegree.items() if d == 0])
        or deque([next(iter(nodes_by_id))])\<close>\<close>
  "initial_queue nodes_by_id indegree =
     (let roots = map fst (filter (\<lambda>(nid, d). d = 0) indegree)
      in if roots \<noteq> [] then Inr roots
         else (case dict_keys nodes_by_id of
                 [] \<Rightarrow> Inl StopIteration
               | nid # _ \<Rightarrow> Inr [nid]))"

type_synonym bfs_state = "string list \<times> (string, nat) pydict \<times> string set"

fun bfs_visit :: "string \<Rightarrow> string list \<Rightarrow> bfs_state \<Rightarrow> py_error + bfs_state" where
  \<comment> \<open>\<open>for v in adj.get(u, [])\<close>, on the queue, \<open>dist\<close> and \<open>vis\<close>; reading
      \<open>dist[u]\<close> raises when \<open>u\<close> is not a key\<close>
  "bfs_visit u [] st = Inr st"
| "bfs_visit u (v # vs) (q, dist, vis) =
     (if v \<notin> vis then
        (case dict_get dist u of
           None \<Rightarrow> Inl KeyError
         | Some du \<Rightarrow> bfs_visit u vs (q @ [v], dict_set dist v (du + 1), insert v vis))
      else bfs_visit u vs (q, dist, vis))"

definition adj_targets :: "(string, string list) pydict \<Rightarrow> string set" where
  "adj_targets adj = (\<Union>vs\<in>snd ` set adj. set vs)"

lemma finite_adj_targets: "finite (adj_targets adj)"
  by (simp add: adj_targets_def)

lemma adj_get_targets: "set (adj_get adj u) \<subseteq> adj_targets adj"
proof (cases "dict_get adj u")
  case None
  then show ?thesis by (simp add: adj_get_def)
next
  case (Some vs)
  then have "(u, vs) \<in> set adj" by (auto simp: dict_get_def dest: map_of_SomeD)
  then have "set vs \<subseteq> adj_targets adj" by (force simp: adj_targets_def)
  with Some show ?thesis by (simp add: adj_get_def)
qed

lemma bfs_visit_measure:
  "bfs_visit u vs (q, dist, vis) = Inr (q', dist', vis') \<Longrightarrow> finite U \<Longrightarrow> set vs \<subseteq> U \<Longrightarrow>
   2 * card (U - vis') + length q' \<le> 2 * card (U - vis) + length q"
proof (induction vs arbitrary: q dist vis)
  case Nil
  then show ?case by simp
next
  case (Cons v vs)
  show ?case
  proof (cases "v \<in> vis")
    case True
    with Cons show ?thesis by simp
  next
    case False
    with Cons.prems(1) obtain du where du: "dict_get dist u = Some du"
      and rec: "bfs_visit u vs (q @ [v], dict_set dist v (du + 1), insert v vis) = Inr (q', dist', vis')"
      by (auto split: option.splits)
    from Cons.IH [OF rec Cons.prems(2)] Cons.prems(3)
    have "2 * card (U - vis') + length q' \<le> 2 * card (U - insert v vis) + length (q @ [v])"
      by simp
    moreover have "v \<in> U - vis" using False Cons.prems(3) by simp
    then have "card (U - insert v vis) < card (U - vis)"
      using Cons.prems(2)
      by (metis Diff_insert card_Diff1_less finite_Diff)
    ultimately show ?thesis by simp
  qed
qed

function bfs :: "(string, string list) pydict \<Rightarrow> bfs_state \<Rightarrow> py_error + (string, nat) pydict" where
  \<comment> \<open>\<open>while q: u = q.popleft(); ...\<close>; the result is \<open>dist\<close>\<close>
  "bfs adj ([], dist, vis) = Inr dist"
| "bfs adj (u # q, dist, vis) =
     (case bfs_visit u (adj_get adj u) (q, dist, vis) of
        Inl err \<Rightarrow> Inl err
      | Inr st \<Rightarrow> bfs adj st)"
  by pat_completeness auto
termination
proof (relation "measure (\<lambda>(adj, q, dist, vis). 2 * card (adj_targets adj - vis) + length q)")
  show "wf (measure (\<lambda>(adj, q, dist, vis). 2 * card (adj_targets adj - vis) + length q))"
    by simp
next
  fix adj u q dist vis and st :: bfs_state
  assume st: "bfs_visit u (adj_get adj u) (q, dist, vis) = Inr st"
  obtain q' dist' vis' where [simp]: "st = (q', dist', vis')" by (cases st)
  from bfs_visit_measure [OF st [simplified] finite_adj_targets adj_get_targets]
  show "((adj, st), (adj, u # q, dist, vis))
    \<in> measure (\<lambda>(adj, q, dist, vis). 2 * card (adj_targets adj - vis) + length q)"
    by simp
qed

definition bfs_dist :: "graph_spec \<Rightarrow> py_error + (string, nat) pydict" where
  \<comment> \<open>the lines that \<open>choose_direction_auto\<close> and \<open>layer_layout\<close> share: the graph, the
      adjacency, the queue of roots and the traversal\<close>
  "bfs_dist spec =
     (let (nodes_by_id, indegree) = build_graph spec;
          adj = build_adj (s_edges spec)
      in case initial_queue nodes_by_id indegree of
           Inl err \<Rightarrow> Inl err
         | Inr q \<Rightarrow> bfs adj (q, dict_of_pairs (map (\<lambda>nid. (nid, 0)) q), set q))"

definition count_layers :: "(string, nat) pydict \<Rightarrow> (nat, nat) pydict" where
  \<comment> \<open>\<open>for nid, d in dist.items(): layers[d] += 1\<close> on a \<open>defaultdict(int)\<close>\<close>
  "count_layers dist =
     fold (\<lambda>(nid, d) layers.
             dict_set layers d ((case dict_get layers d of None \<Rightarrow> 0 | Some c \<Rightarrow> c) + 1))
       dist []"

definition choose_direction_auto :: "graph_spec \<Rightarrow> py_error + string" where
  "choose_direction_auto spec =
     (case bfs_dist spec of
        Inl err \<Rightarrow> Inl err
      | Inr dist \<Rightarrow>
          (let layers = count_layers dist
           in Inr (if (if layers \<noteq> [] then Max (set (map snd layers)) else 1)
                      > (if length layers \<noteq> 0 then length layers else 1)
                   then ''LR'' else ''TD'')))"

definition group_layers :: "(string, nat) pydict \<Rightarrow> (nat, string list) pydict" where
  \<comment> \<open>\<open>for nid, d in dist.items(): layers.setdefault(d, []).append(nid)\<close>\<close>
  "group_layers dist =
     fold (\<lambda>(nid, d) layers.
             dict_set layers d ((case dict_get layers d of None \<Rightarrow> [] | Some ns \<Rightarrow> ns) @ [nid]))
       dist []"

type_synonym positions = "(string, int \<times> int) pydict"

fun place_td :: "nat \<Rightarrow> nat \<Rightarrow> string list \<Rightarrow> positions \<Rightarrow> positions" where
  \<comment> \<open>\<open>for i, nid in enumerate(sorted(nids))\<close> of the branch \<open>TD\<close>, from index \<open>i\<close>\<close>
  "place_td layer i [] pos = pos"
| "place_td layer i (nid # nids) pos =
     place_td layer (i + 1) nids
       (dict_set pos nid (int i * (NODE_W + H_GAP), int layer * (NODE_H + V_GAP)))"

fun place_lr :: "nat \<Rightarrow> nat \<Rightarrow> string list \<Rightarrow> positions \<Rightarrow> positions" where
  \<comment> \<open>the same loop of the other branch\<close>
  "place_lr layer i [] pos = pos"
| "place_lr layer i (nid # nids) pos =
     place_lr layer (i + 1) nids
       (dict_set pos nid (int layer * (NODE_W + H_GAP), int i * (NODE_H + V_GAP)))"

definition layer_layout ::
  "graph_spec \<Rightarrow> string option \<Rightarrow> py_error + graph_spec \<times> positions" where
  \<comment> \<open>returns the specification with its direction set, and the positions\<close>
  "layer_layout spec0 direction =
     (case (case if_truthy direction of
              None \<Rightarrow> choose_direction_auto spec0
            | Some d \<Rightarrow> Inr d) of
        Inl err \<Rightarrow> Inl err
      | Inr d \<Rightarrow>
          (let spec = spec0\<lparr>s_direction := d\<rparr>
           in case bfs_dist spec of
                Inl err \<Rightarrow> Inl err
              | Inr dist \<Rightarrow>
                  (let layers = group_layers dist;
                       pos = (if s_direction spec = ''TD''
                              then fold (\<lambda>(layer, nids) pos. place_td layer 0 (sort nids) pos)
                                     (sort_key fst layers) []
                              else fold (\<lambda>(layer, nids) pos. place_lr layer 0 (sort nids) pos)
                                     (sort_key fst layers) [])
                   in Inr (spec, pos))))"

text \<open>A specification with the given node ids and edges, to write example graphs.\<close>

definition mk_spec :: "string list \<Rightarrow> (string \<times> string) list \<Rightarrow> graph_spec" where
  "mk_spec ns es = \<lparr>s_title = [], s_direction = ''TD'',
     s_nodes = map (\<lambda>i. \<lparr>n_id = i, n_label = i, n_shape = ''rect'', n_html = False\<rparr>) ns,
     s_edges = map (\<lambda>(a, b). \<lparr>e_from = a, e_to = b, e_label = []\<rparr>) es\<rparr>"

definition edge_rel :: "graph_spec \<Rightarrow> (string \<times> string) set" where
  \<comment> \<open>the edges of a specification as a relation between node ids\<close>
  "edge_rel spec = (\<lambda>e. (e_from e, e_to e)) ` set (s_edges spec)"

definition adj_rel :: "(string, string list) pydict \<Rightarrow> (string \<times> string) set" where
  "adj_rel adj = {(u, v). v \<in> set (adj_get adj u)}"

definition graph_ids :: "graph_spec \<Rightarrow> string list" where
  \<comment> \<open>the nodes of the graph of a specification: the declared ids and the endpoints of
      the edges, in the order of \<open>nodes_by_id\<close>\<close>
  "graph_ids spec = dict_keys (fst (build_graph spec))"

definition layout_roots :: "graph_spec \<Rightarrow> string set" where
  \<comment> \<open>where the traversal starts: the nodes no edge points to or, when there is none, the
      first node\<close>
  "layout_roots spec =
     (let Z = {i \<in> set (graph_ids spec). i \<notin> e_to ` set (s_edges spec)}
      in if Z \<noteq> {} then Z else set (take 1 (graph_ids spec)))"

definition indeg :: "(string, nat) pydict \<Rightarrow> string \<Rightarrow> nat" where
  \<comment> \<open>the count \<open>indegree\<close> holds for a node, 0 for a node it does not hold\<close>
  "indeg d i = (case dict_get d i of None \<Rightarrow> 0 | Some c \<Rightarrow> c)"

definition layer_members :: "(nat, string list) pydict \<Rightarrow> string set" where
  \<comment> \<open>the nodes the layers hold\<close>
  "layer_members layers = (\<Union>ns\<in>snd ` set layers. set ns)"

text \<open>
  As the specification words the direction rule: the number of nodes that share a layer,
  the largest such number, and the number of distinct layers, all read from the layers
  the traversal assigns. These definitions follow the specification, not the source, and
  are compared with \<open>choose_direction_auto\<close> below.
\<close>

definition layer_pop :: "(string, nat) pydict \<Rightarrow> nat \<Rightarrow> nat" where
  "layer_pop dist k = card {n. dict_get dist n = Some k}"

definition max_pop :: "(string, nat) pydict \<Rightarrow> nat" where
  "max_pop dist = Max (layer_pop dist ` snd ` set dist)"

definition layer_count :: "(string, nat) pydict \<Rightarrow> nat" where
  "layer_count dist = card (snd ` set dist)"

definition layer_size :: "(nat, nat) pydict \<Rightarrow> nat \<Rightarrow> nat" where
  \<comment> \<open>the count \<open>layers\<close> holds for a layer, 0 for a layer it does not hold\<close>
  "layer_size layers k = (case dict_get layers k of None \<Rightarrow> 0 | Some c \<Rightarrow> c)"

subsection \<open>The serializer\<close>


















section \<open>Properties of the style harvester\<close>

subsection \<open>Dictionaries\<close>

lemma dict_set_absent: "k \<notin> set (dict_keys d) \<Longrightarrow> dict_set d k v = d @ [(k, v)]"
  by (induction d) (auto simp: dict_keys_def)

lemma dict_get_None_iff: "dict_get m k = None \<longleftrightarrow> k \<notin> set (dict_keys m)"
  by (simp add: dict_get_def dict_keys_def map_of_eq_None_iff)

subsection \<open>Insertion without duplicates\<close>

lemma first_same_style_append:
  "first_same_style (m @ m') s =
     (case first_same_style m s of Some k \<Rightarrow> Some k | None \<Rightarrow> first_same_style m' s)"
  by (induction m) auto

lemma first_same_style_None:
  "first_same_style m s = None \<Longrightarrow> (k, es) \<in> set m \<Longrightarrow> normalize_style es \<noteq> s"
  by (induction m) (auto split: if_splits)

lemma add_unique_probe_first:
  "first_same_style m (normalize_style style) = None \<Longrightarrow>
   add_unique_probe m k style (normalize_style style) i = (k', m') \<Longrightarrow>
   first_same_style m' (normalize_style style) = Some k'"
proof (induction m k style "normalize_style style" i rule: add_unique_probe.induct)
  case (1 mapping k style i)
  show ?case
  proof (cases "dict_get mapping (suffixed_key k i)")
    case None
    then have "suffixed_key k i \<notin> set (dict_keys mapping)"
      by (simp add: dict_get_None_iff)
    with None "1.prems" show ?thesis
      by (auto simp: add_unique_probe.simps [of mapping k style _ i] dict_set_absent
          first_same_style_append)
  next
    case (Some es)
    then have "(suffixed_key k i, es) \<in> set mapping"
      by (auto simp: dict_get_def dest: map_of_SomeD)
    with "1.prems"(1) have ne: "normalize_style es \<noteq> normalize_style style"
      by (rule first_same_style_None)
    with Some "1.prems" "1.hyps" show ?thesis
      by (simp add: add_unique_probe.simps [of mapping k style _ i])
  qed
qed

lemma add_unique_first:
  assumes "add_unique m b s = (k, m')"
  shows "first_same_style m' (normalize_style s) = Some k"
proof (cases "first_same_style m (normalize_style s)")
  case (Some ek)
  with assms show ?thesis by (auto simp: add_unique_def Let_def)
next
  case None
  show ?thesis
  proof (cases "safe_key b \<in> set (dict_keys m)")
    case True
    with None assms have "add_unique_probe m (safe_key b) s (normalize_style s) 1 = (k, m')"
      by (simp add: add_unique_def Let_def)
    with None show ?thesis by (rule add_unique_probe_first)
  next
    case False
    with None assms show ?thesis
      by (auto simp: add_unique_def Let_def dict_set_absent first_same_style_append)
  qed
qed

text \<open>
  Claim C5. \<open>add_unique\<close> is idempotent on duplicate content: whatever the library
  \<open>m\<close>, the style \<open>s1\<close> and the base keys \<open>b1\<close> and \<open>b2\<close>, once \<open>s1\<close> has been inserted
  under \<open>b1\<close>, returning the key \<open>k1\<close> and leaving the library \<open>m1\<close>, inserting under \<open>b2\<close>
  any style \<open>s2\<close> with the same normalized form returns \<open>k1\<close> again and leaves \<open>m1\<close> as it
  is, so no second entry is created.
\<close>

theorem add_unique_idempotent:
  assumes "add_unique m b1 s1 = (k1, m1)"
    and "normalize_style s2 = normalize_style s1"
  shows "add_unique m1 b2 s2 = (k1, m1)"
  using add_unique_first [OF assms(1)] assms(2)
  by (simp add: add_unique_def Let_def)

theorem add_unique_idempotent_witness:
  "add_unique [(''shape.rect'', ''x=1;'')] ''Shape Rect'' ''b=2;a=1;''
     = (''shape-rect'', [(''shape.rect'', ''x=1;''), (''shape-rect'', ''b=2;a=1;'')])
   \<and> normalize_style ''a=1;b=2;'' = normalize_style ''b=2;a=1;''
   \<and> add_unique [(''shape.rect'', ''x=1;''), (''shape-rect'', ''b=2;a=1;'')]
         ''edge.other'' ''a=1;b=2;''
     = (''shape-rect'', [(''shape.rect'', ''x=1;''), (''shape-rect'', ''b=2;a=1;'')])"
proof -
  have h1: "add_unique [(''shape.rect'', ''x=1;'')] ''Shape Rect'' ''b=2;a=1;''
     = (''shape-rect'', [(''shape.rect'', ''x=1;''), (''shape-rect'', ''b=2;a=1;'')])"
    by code_simp
  have h2: "normalize_style ''a=1;b=2;'' = normalize_style ''b=2;a=1;''"
    by code_simp
  from add_unique_idempotent [OF h1 h2, of "''edge.other''"] h1 h2 show ?thesis by simp
qed

subsection \<open>Normal forms of styles\<close>

lemma not_key_eq: "\<not> is_key_char CHR ''=''"
  by (simp add: is_key_char_def)

lemma findall_pair:
  assumes "wf_pair (k, v)"
  shows "style_kv_findall (k @ ''='' @ v @ '';'' @ rest) = (k, v) # style_kv_findall rest"
proof -
  from assms obtain c k' where k: "k = c # k'" and kc: "\<forall>x\<in>set k. is_key_char x"
    and vc: "\<forall>x\<in>set v. not_semi x"
    by (cases k) (auto simp: wf_pair_def list_all_iff)
  have tk: "takeWhile is_key_char (k @ CHR ''='' # v @ CHR '';'' # rest) = k"
    using kc by (simp add: takeWhile_append2 not_key_eq)
  have dk: "dropWhile is_key_char (k @ CHR ''='' # v @ CHR '';'' # rest) = CHR ''='' # v @ CHR '';'' # rest"
    using kc by (simp add: dropWhile_append2 not_key_eq)
  have tv: "takeWhile not_semi (v @ CHR '';'' # rest) = v"
    using vc by (simp add: takeWhile_append2 not_semi_def)
  have dv: "dropWhile not_semi (v @ CHR '';'' # rest) = CHR '';'' # rest"
    using vc by (simp add: dropWhile_append2 not_semi_def)
  have "style_kv_findall (c # (k' @ CHR ''='' # v @ CHR '';'' # rest)) = (k, v) # style_kv_findall rest"
    using tk dk tv dv unfolding k
    by (subst style_kv_findall.simps) (simp add: Let_def)
  then show ?thesis by (simp add: k)
qed

lemma findall_style_of_pairs:
  "list_all wf_pair ps \<Longrightarrow> style_kv_findall (style_of_pairs ps) = ps"
proof (induction ps)
  case Nil
  show ?case by (simp add: style_of_pairs_def style_kv_findall.simps)
next
  case (Cons p ps)
  obtain k v where p: "p = (k, v)" by (cases p)
  from Cons.prems have "wf_pair (k, v)" and "list_all wf_pair ps" by (simp_all add: p)
  with Cons.IH findall_pair [of k v "style_of_pairs ps"] show ?case
    by (simp add: p style_of_pairs_def)
qed

lemma dropWhile_hd: "s \<noteq> [] \<Longrightarrow> \<not> P (hd s) \<Longrightarrow> dropWhile P s = s"
  by (cases s) auto

lemma py_strip_with_id:
  assumes "s \<noteq> []" and "\<not> P (hd s)" and "\<not> P (last s)"
  shows "py_strip_with P s = s"
proof -
  have "dropWhile P s = s" using assms by (simp add: dropWhile_hd)
  moreover have "dropWhile P (rev s) = rev s"
    using assms by (intro dropWhile_hd) (simp_all add: hd_rev)
  ultimately show ?thesis by (simp add: py_strip_with_def)
qed

lemma key_char_not_space: "is_key_char c \<Longrightarrow> \<not> py_isspace c"
  by (auto simp: is_key_char_def py_isspace_def Let_def)

lemma py_strip_key: "k \<noteq> [] \<Longrightarrow> list_all is_key_char k \<Longrightarrow> py_strip k = k"
  unfolding py_strip_def
  by (rule py_strip_with_id) (auto simp: list_all_iff intro!: key_char_not_space)

lemma join_pairs:
  "py_join '';'' (map (\<lambda>(k, v). k @ ''='' @ v) kv) @ (if kv \<noteq> [] then '';'' else '''')
     = style_of_pairs kv"
proof (induction kv rule: induct_list012)
  case 1 show ?case by (simp add: style_of_pairs_def)
next
  case (2 x) show ?case by (cases x) (simp add: style_of_pairs_def)
next
  case (3 x y zs)
  then show ?case by (cases x) (simp add: style_of_pairs_def)
qed

lemma normalize_style_pairs:
  assumes "list_all wf_pair ps"
  shows "normalize_style (style_of_pairs ps)
     = style_of_pairs (sort_key (\<lambda>p. py_lower (fst p)) (map (\<lambda>(k, v). (k, py_strip v)) ps))"
proof -
  have keys: "py_strip k = k \<and> k \<noteq> []" if "(k, v) \<in> set ps" for k v
  proof -
    from that assms have "wf_pair (k, v)" by (simp add: list_all_iff)
    then show ?thesis by (simp add: wf_pair_def py_strip_key)
  qed
  have f: "filter (\<lambda>(k, v). py_strip k \<noteq> []) ps = ps"
    using keys by (auto simp: filter_id_conv)
  have m: "map (\<lambda>(k, v). (py_strip k, py_strip v)) ps = map (\<lambda>(k, v). (k, py_strip v)) ps"
    using keys by auto
  show ?thesis
    unfolding normalize_style_def Let_def findall_style_of_pairs [OF assms] f m
    by (rule join_pairs)
qed

lemma sort_trimmed_perm:
  assumes "mset qs = mset ps" and "distinct (map (\<lambda>p. py_lower (fst p)) ps)"
  shows "sort_key (\<lambda>p. py_lower (fst p)) (map (\<lambda>(k, v). (k, py_strip v)) qs)
       = sort_key (\<lambda>p. py_lower (fst p)) (map (\<lambda>(k, v). (k, py_strip v)) ps)"
proof (rule sort_key_eq_sort_key)
  show "mset (map (\<lambda>(k, v). (k, py_strip v)) qs) = mset (map (\<lambda>(k, v). (k, py_strip v)) ps)"
    using assms(1) by (metis mset_map)
next
  have inj: "inj_on (\<lambda>p. py_lower (fst p)) (set ps)"
    using assms(2) by (simp add: distinct_map)
  have qs: "set qs = set ps" using assms(1) by (rule mset_eq_setD)
  show "inj_on (\<lambda>p. py_lower (fst p)) (set (map (\<lambda>(k, v). (k, py_strip v)) qs))"
  proof (rule inj_onI)
    fix x y
    assume "x \<in> set (map (\<lambda>(k, v). (k, py_strip v)) qs)"
      and "y \<in> set (map (\<lambda>(k, v). (k, py_strip v)) qs)"
      and eq: "py_lower (fst x) = py_lower (fst y)"
    then obtain p q where p: "p \<in> set ps" "x = (fst p, py_strip (snd p))"
      and q: "q \<in> set ps" "y = (fst q, py_strip (snd q))"
      by (auto simp: case_prod_beta qs)
    with eq have "py_lower (fst p) = py_lower (fst q)" by simp
    with inj p(1) q(1) have "p = q" by (auto dest: inj_onD)
    with p q show "x = y" by simp
  qed
qed

text \<open>
  Claim C4, as amended. For two style strings that consist of the same well-formed
  attribute=value pairs in different orders, and whose keys are pairwise different when
  case is ignored, \<open>normalize_style\<close> returns the same string: the pairs with their values
  trimmed, sorted by lower-cased key. The sort is stable and compares keys only, so pairs
  whose keys agree up to case keep the order of the input, and the claim as stated fails
  for them.
\<close>

theorem normalize_style_order_independent:
  assumes "list_all wf_pair ps"
    and "mset qs = mset ps"
    and "distinct (map (\<lambda>p. py_lower (fst p)) ps)"
  shows "normalize_style (style_of_pairs qs) = normalize_style (style_of_pairs ps)
       \<and> normalize_style (style_of_pairs ps)
           = style_of_pairs (sort_key (\<lambda>p. py_lower (fst p)) (map (\<lambda>(k, v). (k, py_strip v)) ps))"
proof -
  have "set qs = set ps" using assms(2) by (rule mset_eq_setD)
  with assms(1) have "list_all wf_pair qs" by (simp add: list_all_iff)
  then show ?thesis
    using assms(1) sort_trimmed_perm [OF assms(2,3)] by (simp add: normalize_style_pairs)
qed

theorem normalize_style_same_key_counterexample:
  "style_of_pairs [(''a'', ''1''), (''A'', ''2'')] = ''a=1;A=2;''
   \<and> style_of_pairs [(''A'', ''2''), (''a'', ''1'')] = ''A=2;a=1;''
   \<and> list_all wf_pair [(''a'', ''1''), (''A'', ''2'')]
   \<and> mset [(''A'', ''2''), (''a'', ''1'')] = mset [(''a'', ''1''), (''A'', ''2'')]
   \<and> normalize_style ''a=1;A=2;'' = ''a=1;A=2;''
   \<and> normalize_style ''A=2;a=1;'' = ''A=2;a=1;''
   \<and> normalize_style ''a=1;A=2;'' \<noteq> normalize_style ''A=2;a=1;''"
proof -
  have 1: "normalize_style ''a=1;A=2;'' = ''a=1;A=2;''" by code_simp
  have 2: "normalize_style ''A=2;a=1;'' = ''A=2;a=1;''" by code_simp
  have 3: "list_all wf_pair [(''a'', ''1''), (''A'', ''2'')]" by code_simp
  show ?thesis unfolding 1 2 using 3 by (simp add: style_of_pairs_def)
qed

theorem normalize_style_order_independent_witness:
  "list_all wf_pair [(''a'', ''1''), (''b'', ''2'')]
   \<and> mset [(''b'', ''2''), (''a'', ''1'')] = mset [(''a'', ''1''), (''b'', ''2'')]
   \<and> distinct (map (\<lambda>p. py_lower (fst p)) [(''a'', ''1''), (''b'', ''2'')])
   \<and> normalize_style ''b=2;a=1;'' = normalize_style ''a=1;b=2;''
   \<and> normalize_style ''a=1;b=2;'' = ''a=1;b=2;''"
proof -
  have 1: "list_all wf_pair [(''a'', ''1''), (''b'', ''2'')]" by code_simp
  have 2: "mset [(''b'', ''2''), (''a'', ''1'')] = mset [(''a'', ''1''), (''b'', ''2'')]" by simp
  have 3: "distinct (map (\<lambda>p. py_lower (fst p)) [(''a'', ''1''), (''b'', ''2'')])" by code_simp
  have 4: "style_of_pairs [(''b'', ''2''), (''a'', ''1'')] = ''b=2;a=1;''"
    and 5: "style_of_pairs [(''a'', ''1''), (''b'', ''2'')] = ''a=1;b=2;''"
    by (simp_all add: style_of_pairs_def)
  have 6: "normalize_style ''a=1;b=2;'' = ''a=1;b=2;''" by code_simp
  from normalize_style_order_independent [OF 1 2 3] 1 2 3 6 show ?thesis
    unfolding 4 5 by simp
qed

subsection \<open>Keys guessed from styles\<close>

lemma py_startswith_iff: "py_startswith p s \<longleftrightarrow> (\<exists>r. s = p @ r)"
  by (induction p s rule: py_startswith.induct) auto

lemma py_startswith_self_append [simp]: "py_startswith p (p @ r)"
  by (simp add: py_startswith_iff)

lemma no_straddle:
  assumes "old \<noteq> []" and "hd old \<notin> set (tl old)" and "py_startswith old (x @ old)"
    and "x \<noteq> []"
  shows "py_startswith old x"
proof -
  from assms(3) obtain r where r: "x @ old = old @ r" by (auto simp: py_startswith_iff)
  then have "(\<exists>us. x = old @ us \<and> us @ old = r) \<or> (\<exists>us. x @ us = old \<and> old = us @ r)"
    unfolding append_eq_append_conv2 by blast
  then consider us where "x = old @ us" | us where "x @ us = old" "old = us @ r" "us \<noteq> []"
  proof (elim disjE exE conjE)
    fix us assume "x = old @ us"
    then show ?thesis using that(1) by blast
  next
    fix us assume u: "x @ us = old" "old = us @ r"
    show ?thesis
    proof (cases "us = []")
      case True
      with u have "x = old @ []" by simp
      then show ?thesis using that(1) by blast
    next
      case False
      with u show ?thesis using that(2) by blast
    qed
  qed
  then show ?thesis
  proof cases
    case 1
    then show ?thesis by (simp add: py_startswith_iff)
  next
    case 2
    from 2(2,3) assms(1) have "hd us = hd old" by (metis hd_append2)
    moreover from 2(1,3) assms(4) have "hd us \<in> set (tl old)"
      by (cases x; cases us) auto
    ultimately show ?thesis using assms(2) by simp
  qed
qed

lemma py_replace_only_trailing:
  assumes "old \<noteq> []" and "hd old \<notin> set (tl old)" and "\<not> py_contains old x"
  shows "py_replace old [] (x @ old) = x"
  using assms(3)
proof (induction x)
  case Nil
  have "py_startswith old old" by (simp add: py_startswith_iff)
  with assms(1) show ?case by (cases old) auto
next
  case (Cons c cs)
  then have a: "\<not> py_startswith old (c # cs)" and b: "\<not> py_contains old cs" by auto
  from a no_straddle [OF assms(1,2), of "c # cs"] have "\<not> py_startswith old ((c # cs) @ old)"
    by auto
  with Cons.IH [OF b] show ?case by simp
qed

lemma spec_strip_trailing_append: "spec_strip_trailing suf (x @ suf) = x"
  by (simp add: spec_strip_trailing_def)

lemma guess_vertex_mxgraph:
  assumes "style_attr style ''shape'' = Some (''mxgraph.'' @ rest)"
  shows "guess_key_from_style style False = Inr rest"
  using assms by (simp add: guess_key_from_style_def style_attr_def get_or_empty_def Let_def)

lemma guess_edge_style:
  assumes "style_attr style ''edgeStyle'' = Some est" and "est \<noteq> []"
  shows "guess_key_from_style style True = Inr (''edge.'' @ py_replace ''EdgeStyle'' [] est)"
  using assms by (simp add: guess_key_from_style_def style_attr_def get_or_empty_def Let_def)

lemma guess_edge_arrow:
  assumes "nonempty_attr style ''edgeStyle'' = None"
  shows "guess_key_from_style style True =
     (case nonempty_attr style ''endArrow'' of
        Some a \<Rightarrow> Inr (''edge.'' @ a)
      | None \<Rightarrow> (case nonempty_attr style ''startArrow'' of
                   Some a \<Rightarrow> Inr (''edge.'' @ a)
                 | None \<Rightarrow> Inr ''edge.orthogonal''))"
  using assms
  by (auto simp: guess_key_from_style_def nonempty_attr_def style_attr_def get_or_empty_def Let_def
      split: option.splits if_splits)

text \<open>
  Claim C6, as amended. \<open>guess_key_from_style\<close> maps a non-edge style whose shape
  attribute is \<open>mxgraph.\<close> followed by \<open>rest\<close> to \<open>rest\<close>. It maps an edge style with a
  non-empty edgeStyle attribute to \<open>edge.\<close> followed by the value with every occurrence of
  \<open>EdgeStyle\<close> removed, which is the value without its trailing \<open>EdgeStyle\<close> when that is
  the only occurrence. With no edgeStyle value it uses the endArrow value, else the
  startArrow value, else \<open>edge.orthogonal\<close>. The two examples of the specification hold.
\<close>

theorem guess_key_from_style_cases:
  "(style_attr s1 ''shape'' = Some (''mxgraph.'' @ rest)
      \<longrightarrow> guess_key_from_style s1 False = Inr rest)
   \<and> (style_attr s2 ''edgeStyle'' = Some est \<and> est \<noteq> []
      \<longrightarrow> guess_key_from_style s2 True = Inr (''edge.'' @ py_replace ''EdgeStyle'' [] est))
   \<and> (style_attr s3 ''edgeStyle'' = Some (x @ ''EdgeStyle'') \<and> \<not> py_contains ''EdgeStyle'' x
      \<longrightarrow> guess_key_from_style s3 True = Inr (''edge.'' @ x)
          \<and> spec_strip_trailing ''EdgeStyle'' (x @ ''EdgeStyle'') = x)
   \<and> (nonempty_attr s4 ''edgeStyle'' = None
      \<longrightarrow> guess_key_from_style s4 True =
            (case nonempty_attr s4 ''endArrow'' of
               Some a \<Rightarrow> Inr (''edge.'' @ a)
             | None \<Rightarrow> (case nonempty_attr s4 ''startArrow'' of
                          Some a \<Rightarrow> Inr (''edge.'' @ a)
                        | None \<Rightarrow> Inr ''edge.orthogonal'')))
   \<and> guess_key_from_style ''shape=mxgraph.foo.bar;'' False = Inr ''foo.bar''
   \<and> guess_key_from_style ''edgeStyle=entityRelationEdgeStyle;'' True
        = Inr ''edge.entityRelation''"
proof -
  have a: "guess_key_from_style s3 True = Inr (''edge.'' @ x)"
    if "style_attr s3 ''edgeStyle'' = Some (x @ ''EdgeStyle'')"
      and "\<not> py_contains ''EdgeStyle'' x"
  proof -
    have "py_replace ''EdgeStyle'' [] (x @ ''EdgeStyle'') = x"
      using that(2) by (intro py_replace_only_trailing) simp_all
    with guess_edge_style [OF that(1)] show ?thesis by simp
  qed
  have b: "guess_key_from_style ''shape=mxgraph.foo.bar;'' False = Inr ''foo.bar''"
    by code_simp
  have c: "guess_key_from_style ''edgeStyle=entityRelationEdgeStyle;'' True
        = Inr ''edge.entityRelation''"
    by code_simp
  show ?thesis
    using a b c guess_vertex_mxgraph guess_edge_style guess_edge_arrow
      spec_strip_trailing_append
    by blast
qed

theorem guess_key_from_style_cases_witness:
  "style_attr ''fillColor=none;shape=mxgraph.aws.ec2;'' ''shape'' = Some ''mxgraph.aws.ec2''
   \<and> guess_key_from_style ''fillColor=none;shape=mxgraph.aws.ec2;'' False = Inr ''aws.ec2''
   \<and> style_attr ''edgeStyle=EdgeStyleFoo;'' ''edgeStyle'' = Some ''EdgeStyleFoo''
   \<and> guess_key_from_style ''edgeStyle=EdgeStyleFoo;'' True = Inr ''edge.Foo''
   \<and> style_attr ''edgeStyle=elbowEdgeStyle;'' ''edgeStyle'' = Some ''elbowEdgeStyle''
   \<and> \<not> py_contains ''EdgeStyle'' ''elbow''
   \<and> guess_key_from_style ''edgeStyle=elbowEdgeStyle;'' True = Inr ''edge.elbow''
   \<and> nonempty_attr ''startArrow=oval;endArrow=;'' ''edgeStyle'' = None
   \<and> guess_key_from_style ''startArrow=oval;endArrow=;'' True = Inr ''edge.oval''"
proof -
  have 1: "style_attr ''fillColor=none;shape=mxgraph.aws.ec2;'' ''shape''
             = Some (''mxgraph.'' @ ''aws.ec2'')"
    by code_simp
  have 2: "style_attr ''edgeStyle=EdgeStyleFoo;'' ''edgeStyle'' = Some ''EdgeStyleFoo''"
    by code_simp
  have 3: "style_attr ''edgeStyle=elbowEdgeStyle;'' ''edgeStyle''
             = Some (''elbow'' @ ''EdgeStyle'')"
    by code_simp
  have 4: "\<not> py_contains ''EdgeStyle'' ''elbow''" by code_simp
  have 5: "nonempty_attr ''startArrow=oval;endArrow=;'' ''edgeStyle'' = None" by code_simp
  have 6: "nonempty_attr ''startArrow=oval;endArrow=;'' ''endArrow'' = None" by code_simp
  have 7: "nonempty_attr ''startArrow=oval;endArrow=;'' ''startArrow'' = Some ''oval''"
    by code_simp
  have 8: "py_replace ''EdgeStyle'' [] ''EdgeStyleFoo'' = ''Foo''" by code_simp
  from guess_key_from_style_cases [of "''fillColor=none;shape=mxgraph.aws.ec2;''" "''aws.ec2''"
      "''edgeStyle=EdgeStyleFoo;''" "''EdgeStyleFoo''" "''edgeStyle=elbowEdgeStyle;''" "''elbow''"
      "''startArrow=oval;endArrow=;''"]
    1 2 3 4 5 6 7 8
  show ?thesis by simp
qed

theorem guess_key_from_style_suffix_counterexample:
  "style_attr ''edgeStyle=EdgeStyleFoo;'' ''edgeStyle'' = Some ''EdgeStyleFoo''
   \<and> spec_strip_trailing ''EdgeStyle'' ''EdgeStyleFoo'' = ''EdgeStyleFoo''
   \<and> guess_key_from_style ''edgeStyle=EdgeStyleFoo;'' True = Inr ''edge.Foo''
   \<and> guess_key_from_style ''edgeStyle=EdgeStyleFoo;'' True
       \<noteq> Inr (''edge.'' @ spec_strip_trailing ''EdgeStyle'' ''EdgeStyleFoo'')"
proof -
  have 1: "style_attr ''edgeStyle=EdgeStyleFoo;'' ''edgeStyle'' = Some ''EdgeStyleFoo''"
    by code_simp
  have 2: "spec_strip_trailing ''EdgeStyle'' ''EdgeStyleFoo'' = ''EdgeStyleFoo''"
    by code_simp
  have 3: "guess_key_from_style ''edgeStyle=EdgeStyleFoo;'' True = Inr ''edge.Foo''"
    by code_simp
  show ?thesis unfolding 1 2 3 by simp
qed

section \<open>Properties of the diagram generator\<close>

subsection \<open>Escaping\<close>

lemma py_replace_char: "py_replace [a] new s = concat (map (\<lambda>c. if c = a then new else [c]) s)"
  by (induction s) auto

lemma xml_attr_chars: "xml_attr (Some s) = concat (map xml_attr_char s)"
  by (induction s) (simp_all add: xml_attr_def py_replace_char xml_attr_char_def)

lemma html_escape_chars: "html_escape s = concat (map html_escape_char s)"
  by (induction s) (simp_all add: html_escape_def py_replace_char html_escape_char_def)

lemma xml_unescape_char: "xml_unescape (xml_attr_char c @ r) = c # xml_unescape r"
  by (simp add: xml_attr_char_def)

lemma html_unescape_char: "html_unescape (html_escape_char c @ r) = c # html_unescape r"
  by (simp add: html_escape_char_def)

lemma xml_unescape_attr: "xml_unescape (xml_attr (Some s)) = s"
  unfolding xml_attr_chars by (induction s) (simp_all add: xml_unescape_char)

lemma html_unescape_escape: "html_unescape (html_escape s) = s"
  unfolding html_escape_chars by (induction s) (simp_all add: html_unescape_char)

text \<open>
  Claim C9. The two escaping layers round-trip: for every label, the content escape
  followed by the attribute escape, and then the attribute unescape followed by the
  content unescape, give the label back; so also for a label with \<open>&\<close> and \<open><\<close> in it.
\<close>

theorem escape_round_trip: "html_unescape (xml_unescape (xml_attr (Some (html_escape s)))) = s"
  by (simp add: xml_unescape_attr html_unescape_escape)

theorem escape_round_trip_witness:
  "xml_attr (Some (html_escape ''a&b<c'')) = ''a&amp;amp;b&amp;lt;c''
   \<and> html_unescape (xml_unescape ''a&amp;amp;b&amp;lt;c'') = ''a&b<c''"
proof -
  have 1: "xml_attr (Some (html_escape ''a&b<c'')) = ''a&amp;amp;b&amp;lt;c''" by code_simp
  from escape_round_trip [of "''a&b<c''"] show ?thesis unfolding 1 by simp
qed

subsection \<open>Style resolution\<close>

lemma first_pref_None:
  "\<forall>inc\<in>set pref_keys. if_truthy (find_style styles inc exclude) = None \<Longrightarrow>
   first_pref styles exclude pref_keys = None"
  by (induction pref_keys) auto

text \<open>
  Claim C7, as amended. A reference that is not empty is first trimmed of surrounding
  white space. If the trimmed reference begins with \<open>shape=\<close>, case ignored, or contains
  \<open>;\<close>, it is a literal style and is returned, trimmed (so verbatim when it has no white
  space around it); any other reference is looked up, trimmed, as an exact key of the
  library. No reference, an empty one or an absent key yield no result; the caller
  \<open>style_for_vertex\<close> then takes the first library style matched by its preferred tokens,
  and the structural default of the shape kind only when none of them matches.
\<close>

theorem style_from_key_or_literal_cases:
  "(s \<noteq> [] \<and> (py_startswith ''shape='' (py_lower (py_strip s)) \<or> py_contains '';'' (py_strip s))
      \<longrightarrow> style_from_key_or_literal (Some s) styles = Some (py_strip s))
   \<and> (s \<noteq> [] \<and> \<not> py_isspace (hd s) \<and> \<not> py_isspace (last s)
        \<and> (py_startswith ''shape='' (py_lower s) \<or> py_contains '';'' s)
      \<longrightarrow> style_from_key_or_literal (Some s) styles = Some s)
   \<and> (s \<noteq> [] \<and> \<not> py_startswith ''shape='' (py_lower (py_strip s)) \<and> \<not> py_contains '';'' (py_strip s)
      \<longrightarrow> style_from_key_or_literal (Some s) styles = dict_get styles (py_strip s))
   \<and> style_from_key_or_literal None styles = None
   \<and> style_from_key_or_literal (Some []) styles = None
   \<and> (if_truthy (style_from_key_or_literal override styles) = None
      \<longrightarrow> style_for_vertex shape html styles pref_keys override =
            (case first_pref styles [''edge''] pref_keys of
               Some s' \<Rightarrow> if html then ensure_html s' else s'
             | None \<Rightarrow> default_vertex_style shape html))
   \<and> (if_truthy (style_from_key_or_literal override styles) = None
        \<and> (\<forall>inc\<in>set pref_keys. if_truthy (find_style styles inc [''edge'']) = None)
      \<longrightarrow> style_for_vertex shape html styles pref_keys override
            = default_vertex_style shape html)"
proof -
  have verbatim: "py_strip s = s" if "s \<noteq> []" "\<not> py_isspace (hd s)" "\<not> py_isspace (last s)"
    using that unfolding py_strip_def by (rule py_strip_with_id)
  show ?thesis
    by (auto simp: style_from_key_or_literal_def style_for_vertex_def Let_def verbatim
        first_pref_None)
qed

theorem style_from_key_or_literal_cases_witness:
  "style_from_key_or_literal (Some '' Shape=rect;rounded=1 '') [(''x.y'', ''shape=ellipse;'')]
     = Some ''Shape=rect;rounded=1''
   \<and> style_from_key_or_literal (Some ''shape=rect;'') [(''x.y'', ''shape=ellipse;'')]
     = Some ''shape=rect;''
   \<and> style_from_key_or_literal (Some ''x.y '') [(''x.y'', ''shape=ellipse;'')]
     = Some ''shape=ellipse;''
   \<and> style_for_vertex ''rect'' False [(''x.y'', ''shape=ellipse;'')] [[''shape.rect'']]
       (Some ''shape=rect;'') = ''shape=rect;''
   \<and> style_for_vertex ''rect'' False [(''x.y'', ''shape=ellipse;'')] [[''shape.rect'']]
       (Some ''x.y'') = ''shape=ellipse;''
   \<and> if_truthy (style_from_key_or_literal (Some ''missing'') [(''shape.rect'', ''fillColor=red;'')])
     = None
   \<and> style_for_vertex ''rect'' False [(''shape.rect'', ''fillColor=red;'')] [[''shape.rect'']]
       (Some ''missing'') = ''fillColor=red;''
   \<and> if_truthy (style_from_key_or_literal None [(''x.y'', ''shape=ellipse;'')]) = None
   \<and> if_truthy (find_style [(''x.y'', ''shape=ellipse;'')] [''shape.rect''] [''edge'']) = None
   \<and> style_for_vertex ''round'' True [(''x.y'', ''shape=ellipse;'')] [[''shape.rect'']] None
     = ''rounded=1;whiteSpace=wrap;html=1;''"
proof -
  let ?lib = "[(''x.y'', ''shape=ellipse;'')]"
  let ?lib2 = "[(''shape.rect'', ''fillColor=red;'')]"
  have 1: "py_startswith ''shape='' (py_lower (py_strip '' Shape=rect;rounded=1 ''))"
    and 2: "py_strip '' Shape=rect;rounded=1 '' = ''Shape=rect;rounded=1''"
    and 3: "\<not> py_isspace (hd ''shape=rect;'')" "\<not> py_isspace (last ''shape=rect;'')"
      "py_startswith ''shape='' (py_lower ''shape=rect;'')"
    and 4: "\<not> py_startswith ''shape='' (py_lower (py_strip ''x.y ''))"
      "\<not> py_contains '';'' (py_strip ''x.y '')" "dict_get ?lib (py_strip ''x.y '') = Some ''shape=ellipse;''"
    by code_simp+
  have 5: "style_for_vertex ''rect'' False ?lib [[''shape.rect'']] (Some ''shape=rect;'') = ''shape=rect;''"
    and 6: "style_for_vertex ''rect'' False ?lib [[''shape.rect'']] (Some ''x.y'') = ''shape=ellipse;''"
    by code_simp+
  have 7: "if_truthy (style_from_key_or_literal (Some ''missing'') ?lib2) = None"
    and 8: "first_pref ?lib2 [''edge''] [[''shape.rect'']] = Some ''fillColor=red;''"
    and 9: "if_truthy (style_from_key_or_literal None ?lib) = None"
    and 10: "if_truthy (find_style ?lib [''shape.rect''] [''edge'']) = None"
    and 11: "default_vertex_style ''round'' True = ''rounded=1;whiteSpace=wrap;html=1;''"
    by code_simp+
  note t = style_from_key_or_literal_cases
  from t [of "'' Shape=rect;rounded=1 ''" ?lib] 1 2
  have a: "style_from_key_or_literal (Some '' Shape=rect;rounded=1 '') ?lib = Some ''Shape=rect;rounded=1''"
    by simp
  from t [of "''shape=rect;''" ?lib] 3
  have b: "style_from_key_or_literal (Some ''shape=rect;'') ?lib = Some ''shape=rect;''"
    by simp
  from t [of "''x.y ''" ?lib] 4
  have c: "style_from_key_or_literal (Some ''x.y '') ?lib = Some ''shape=ellipse;''"
    by simp
  from t [of _ ?lib2 "Some ''missing''" "''rect''" False "[[''shape.rect'']]"] 7 8
  have d: "style_for_vertex ''rect'' False ?lib2 [[''shape.rect'']] (Some ''missing'') = ''fillColor=red;''"
    by simp
  from t [of _ ?lib None "''round''" True "[[''shape.rect'']]"] 9 10 11
  have e: "style_for_vertex ''round'' True ?lib [[''shape.rect'']] None = ''rounded=1;whiteSpace=wrap;html=1;''"
    by simp
  from a b c d e 5 6 7 9 10 show ?thesis by simp
qed

theorem style_from_key_or_literal_counterexample:
  "py_contains '';'' ''a=1;b=2 ''
   \<and> style_from_key_or_literal (Some ''a=1;b=2 '') [] = Some ''a=1;b=2''
   \<and> style_from_key_or_literal (Some ''a=1;b=2 '') [] \<noteq> Some ''a=1;b=2 ''
   \<and> dict_get [(''shape.rect'', ''fillColor=red;'')] ''missing'' = None
   \<and> style_from_key_or_literal (Some ''missing'') [(''shape.rect'', ''fillColor=red;'')] = None
   \<and> style_for_vertex ''rect'' False [(''shape.rect'', ''fillColor=red;'')] [[''shape.rect'']]
       (Some ''missing'') = ''fillColor=red;''
   \<and> default_vertex_style ''rect'' False = ''rounded=0;whiteSpace=wrap;html=1;''
   \<and> style_for_vertex ''rect'' False [(''shape.rect'', ''fillColor=red;'')] [[''shape.rect'']]
       (Some ''missing'') \<noteq> default_vertex_style ''rect'' False"
proof -
  have 1: "py_contains '';'' ''a=1;b=2 ''"
    and 2: "style_from_key_or_literal (Some ''a=1;b=2 '') [] = Some ''a=1;b=2''"
    and 3: "dict_get [(''shape.rect'', ''fillColor=red;'')] ''missing'' = None"
    and 4: "style_from_key_or_literal (Some ''missing'') [(''shape.rect'', ''fillColor=red;'')] = None"
    and 5: "style_for_vertex ''rect'' False [(''shape.rect'', ''fillColor=red;'')] [[''shape.rect'']]
       (Some ''missing'') = ''fillColor=red;''"
    and 6: "default_vertex_style ''rect'' False = ''rounded=0;whiteSpace=wrap;html=1;''"
    by code_simp+
  show ?thesis unfolding 2 5 6 using 1 3 4 by simp
qed

subsection \<open>Graph construction\<close>

lemma dict_keys_dict_set_list:
  "dict_keys (dict_set d k v) = (if k \<in> set (dict_keys d) then dict_keys d else dict_keys d @ [k])"
  by (induction d) (force simp: dict_keys_def)+

lemma dict_keys_dict_set: "set (dict_keys (dict_set d k v)) = insert k (set (dict_keys d))"
  by (auto simp: dict_keys_dict_set_list)

lemma distinct_dict_set: "distinct (dict_keys d) \<Longrightarrow> distinct (dict_keys (dict_set d k v))"
  by (simp add: dict_keys_dict_set_list)

lemma dict_get_dict_set: "dict_get (dict_set d k v) i = (if i = k then Some v else dict_get d i)"
  by (induction d) (auto simp: dict_get_def)

lemma dict_get_append1:
  "dict_get (d @ [(k, v)]) i
     = (case dict_get d i of None \<Rightarrow> (if i = k then Some v else None) | Some x \<Rightarrow> Some x)"
  by (simp add: dict_get_def map_add_def split: option.splits)

lemma dict_keys_setdefault:
  "set (dict_keys (dict_setdefault d k v)) = insert k (set (dict_keys d))"
  by (auto simp: dict_setdefault_def dict_keys_def)

lemma dict_get_setdefault:
  "dict_get (dict_setdefault d k v) i
     = (if i = k \<and> k \<notin> set (dict_keys d) then Some v else dict_get d i)"
proof (cases "k \<in> set (dict_keys d)")
  case True
  then show ?thesis by (simp add: dict_setdefault_def)
next
  case False
  then have "dict_get d k = None" by (simp add: dict_get_None_iff)
  with False show ?thesis
    by (auto simp: dict_setdefault_def dict_get_append1 split: option.splits)
qed

lemma dict_get_Some_keys: "dict_get d k = Some v \<Longrightarrow> k \<in> set (dict_keys d)"
  by (metis dict_get_None_iff option.distinct(1))

lemma dict_of_pairs_fold_keys:
  "set (dict_keys (fold (\<lambda>(k, v) d. dict_set d k v) ps acc)) = set (dict_keys acc) \<union> fst ` set ps"
  by (induction ps arbitrary: acc) (auto simp: dict_keys_dict_set)

lemma dict_keys_of_pairs: "set (dict_keys (dict_of_pairs ps)) = fst ` set ps"
  unfolding dict_of_pairs_def dict_of_pairs_fold_keys by (simp add: dict_keys_def)

lemma dict_of_pairs_fold_get:
  "dict_get (fold (\<lambda>(k, v) d. dict_set d k v) ps acc) i
     = (case map_of (rev ps) i of Some v \<Rightarrow> Some v | None \<Rightarrow> dict_get acc i)"
  by (induction ps arbitrary: acc)
     (auto simp: dict_get_dict_set map_add_def split: option.splits)

lemma dict_get_of_pairs: "dict_get (dict_of_pairs ps) i = map_of (rev ps) i"
  unfolding dict_of_pairs_def dict_of_pairs_fold_get
  by (simp add: dict_get_def split: option.splits)

lemma build_graph_loop_effect:
  assumes "set (dict_keys nb) = set (dict_keys ind)"
    and "build_graph_loop es (nb, ind) = (nb', ind')"
  shows "set (dict_keys nb') = set (dict_keys nb) \<union> e_from ` set es \<union> e_to ` set es
       \<and> set (dict_keys ind') = set (dict_keys nb')
       \<and> (\<forall>i\<in>set (dict_keys nb). dict_get nb' i = dict_get nb i)
       \<and> (\<forall>i\<in>set (dict_keys nb') - set (dict_keys nb). dict_get nb' i = Some (placeholder i))"
  using assms
proof (induction es arbitrary: nb ind)
  case Nil
  then show ?case by auto
next
  case (Cons e es)
  define nb1 where "nb1 = (case dict_get ind (e_to e) of Some d \<Rightarrow> nb
                           | None \<Rightarrow> dict_setdefault nb (e_to e) (placeholder (e_to e)))"
  define ind1 where "ind1 = (case dict_get ind (e_to e) of Some d \<Rightarrow> dict_set ind (e_to e) (d + 1)
                           | None \<Rightarrow> dict_set ind (e_to e) 1)"
  define nb2 where "nb2 = (if e_from e \<notin> set (dict_keys nb1)
                           then dict_setdefault nb1 (e_from e) (placeholder (e_from e)) else nb1)"
  define ind2 where "ind2 = (if e_from e \<notin> set (dict_keys nb1)
                           then dict_setdefault ind1 (e_from e) 0 else ind1)"
  have step: "build_graph_loop (e # es) (nb, ind) = build_graph_loop es (nb2, ind2)"
    by (simp add: nb1_def ind1_def nb2_def ind2_def split: option.splits)
  have k1: "set (dict_keys nb1) = insert (e_to e) (set (dict_keys nb))"
    and i1: "set (dict_keys ind1) = set (dict_keys nb1)"
    using Cons.prems(1)
    by (auto simp: nb1_def ind1_def dict_keys_setdefault dict_keys_dict_set
        dict_get_None_iff dest: dict_get_Some_keys split: option.splits)
  have g1: "dict_get nb1 i = (if i \<in> set (dict_keys nb) then dict_get nb i
                              else if i = e_to e then Some (placeholder i) else None)" for i
  proof (cases "dict_get ind (e_to e)")
    case None
    then have "e_to e \<notin> set (dict_keys nb)"
      using Cons.prems(1) by (simp add: dict_get_None_iff)
    moreover from None have "nb1 = dict_setdefault nb (e_to e) (placeholder (e_to e))"
      by (simp add: nb1_def)
    ultimately show ?thesis
      by (auto simp: dict_get_setdefault dict_get_None_iff)
  next
    case (Some d)
    then have "e_to e \<in> set (dict_keys nb)"
      using Cons.prems(1) by (auto dest: dict_get_Some_keys)
    moreover from Some have "nb1 = nb" by (simp add: nb1_def)
    ultimately show ?thesis
      by (auto simp: dict_get_None_iff)
  qed
  have k2: "set (dict_keys nb2) = insert (e_from e) (set (dict_keys nb1))"
    and i2: "set (dict_keys ind2) = set (dict_keys nb2)"
    using i1 by (auto simp: nb2_def ind2_def dict_keys_setdefault)
  have g2: "dict_get nb2 i = (if i \<in> set (dict_keys nb1) then dict_get nb1 i
                              else if i = e_from e then Some (placeholder i) else None)" for i
    by (auto simp: nb2_def dict_get_setdefault dict_get_None_iff dict_keys_setdefault)
  from Cons.prems(2) step have "build_graph_loop es (nb2, ind2) = (nb', ind')" by simp
  from Cons.IH [OF i2 [symmetric] this]
  have ih: "set (dict_keys nb') = set (dict_keys nb2) \<union> e_from ` set es \<union> e_to ` set es"
    "set (dict_keys ind') = set (dict_keys nb')"
    "\<forall>i\<in>set (dict_keys nb2). dict_get nb' i = dict_get nb2 i"
    "\<forall>i\<in>set (dict_keys nb') - set (dict_keys nb2). dict_get nb' i = Some (placeholder i)"
    by auto
  have a: "set (dict_keys nb') = set (dict_keys nb) \<union> e_from ` set (e # es) \<union> e_to ` set (e # es)"
    using ih(1) k1 k2 by auto
  have b: "\<forall>i\<in>set (dict_keys nb). dict_get nb' i = dict_get nb i"
    using ih(3) k1 k2 g1 g2 by auto
  have c: "dict_get nb' i = Some (placeholder i)"
    if "i \<in> set (dict_keys nb') - set (dict_keys nb)" for i
  proof (cases "i \<in> set (dict_keys nb2)")
    case True
    with that ih(3) have "dict_get nb' i = dict_get nb2 i" by simp
    with that True k1 k2 g1 [of i] g2 [of i] show ?thesis by (auto split: if_splits)
  next
    case False
    with that ih(4) show ?thesis by simp
  qed
  from a b c ih(2) show ?case by blast
qed

lemma build_graph_nodes:
  assumes "build_graph spec = (nodes_by_id, indegree)"
  shows "set (dict_keys nodes_by_id)
           = n_id ` set (s_nodes spec) \<union> e_from ` set (s_edges spec) \<union> e_to ` set (s_edges spec)"
    and "set (dict_keys indegree) = set (dict_keys nodes_by_id)"
    and "i \<in> n_id ` set (s_nodes spec) \<Longrightarrow>
           \<exists>n\<in>set (s_nodes spec). n_id n = i \<and> dict_get nodes_by_id i = Some n"
    and "i \<in> set (dict_keys nodes_by_id) \<Longrightarrow> i \<notin> n_id ` set (s_nodes spec) \<Longrightarrow>
           dict_get nodes_by_id i = Some (placeholder i)"
proof -
  define nb where "nb = dict_of_pairs (map (\<lambda>n. (n_id n, n)) (s_nodes spec))"
  define ind where "ind = map (\<lambda>nid. (nid, 0 :: nat)) (dict_keys nb)"
  have keys: "set (dict_keys nb) = n_id ` set (s_nodes spec)"
    by (simp add: nb_def dict_keys_of_pairs image_image)
  have eq: "set (dict_keys nb) = set (dict_keys ind)"
    by (simp add: ind_def dict_keys_def comp_def)
  from assms have "build_graph_loop (s_edges spec) (nb, ind) = (nodes_by_id, indegree)"
    by (simp add: build_graph_def nb_def ind_def Let_def)
  note eff = build_graph_loop_effect [OF eq this]
  from eff keys show "set (dict_keys nodes_by_id)
      = n_id ` set (s_nodes spec) \<union> e_from ` set (s_edges spec) \<union> e_to ` set (s_edges spec)"
    by simp
  from eff show "set (dict_keys indegree) = set (dict_keys nodes_by_id)" by simp
  show "\<exists>n\<in>set (s_nodes spec). n_id n = i \<and> dict_get nodes_by_id i = Some n"
    if i: "i \<in> n_id ` set (s_nodes spec)"
  proof -
    from i keys have "i \<in> set (dict_keys nb)" by simp
    with eff have "dict_get nodes_by_id i = dict_get nb i" by blast
    moreover from i keys obtain n where n: "dict_get nb i = Some n"
      by (metis dict_get_None_iff option.exhaust)
    then have "(i, n) \<in> set (map (\<lambda>n. (n_id n, n)) (s_nodes spec))"
      by (auto simp: nb_def dict_get_of_pairs dest: map_of_SomeD)
    ultimately show ?thesis using n by auto
  qed
  show "dict_get nodes_by_id i = Some (placeholder i)"
    if "i \<in> set (dict_keys nodes_by_id)" "i \<notin> n_id ` set (s_nodes spec)"
    using that eff keys by simp
qed

lemma py_contains_dot: "py_contains ''.'' s \<longleftrightarrow> CHR ''.'' \<in> set s"
  by (induction s) auto

lemma py_split1_dot:
  "CHR ''.'' \<in> set s \<Longrightarrow>
   py_split1 ''.'' acc s
     = [acc @ takeWhile (\<lambda>c. c \<noteq> CHR ''.'') s, tl (dropWhile (\<lambda>c. c \<noteq> CHR ''.'') s)]"
  by (induction s arbitrary: acc) auto

lemma splitf_entity: "\<exists>b. splitf s = Inr (er_entity_of s, b)"
proof (cases "CHR ''.'' \<in> set s")
  case True
  then show ?thesis
    by (simp add: splitf_def py_contains_dot py_split1_dot er_entity_of_def)
next
  case False
  then have "er_entity_of s = s"
    unfolding er_entity_of_def by (intro takeWhile_eq_all_conv [THEN iffD2]) auto
  with False show ?thesis
    by (simp add: splitf_def py_contains_dot)
qed

lemma er_relations_loop_eq:
  "er_relations_loop m rs edges = Inr (edges @ List.map_filter (er_edge m) rs)"
proof (induction rs arbitrary: edges)
  case Nil
  show ?case by simp
next
  case (Cons r rs)
  obtain b1 b2 where "splitf (r_from r) = Inr (er_entity_of (r_from r), b1)"
    and "splitf (r_to r) = Inr (er_entity_of (r_to r), b2)"
    using splitf_entity by blast
  then show ?case
    by (simp add: Cons.IH er_edge_def split: option.splits)
qed

lemma er_entities_loop_effect:
  "er_entities_loop i es (m, ns) = (m', ns') \<Longrightarrow>
   set (dict_keys m') = set (dict_keys m) \<union> en_name ` set es
   \<and> map n_id ns' = map n_id ns @ map (\<lambda>j. ''E'' @ str_nat (i + j)) [0..<length es]"
proof (induction es arbitrary: i m ns)
  case Nil
  then show ?case by simp
next
  case (Cons e es)
  let ?m = "dict_set m (en_name e) (''E'' @ str_nat i)"
  let ?ns = "ns @ [\<lparr>n_id = ''E'' @ str_nat i, n_label = er_label e, n_shape = ''rect'', n_html = True\<rparr>]"
  from Cons.prems have "er_entities_loop (i + 1) es (?m, ?ns) = (m', ns')"
    by (simp add: Let_def)
  from Cons.IH [OF this]
  have 1: "set (dict_keys m') = set (dict_keys ?m) \<union> en_name ` set es"
    and 2: "map n_id ns' = map n_id ?ns @ map (\<lambda>j. ''E'' @ str_nat (i + 1 + j)) [0..<length es]"
    by simp_all
  have 3: "map (\<lambda>j. ''E'' @ str_nat (i + j)) [0..<length (e # es)]
         = (''E'' @ str_nat i) # map (\<lambda>j. ''E'' @ str_nat (i + 1 + j)) [0..<length es]"
    by (simp add: upt_conv_Cons map_Suc_upt [symmetric] del: upt_Suc)
  from 1 2 3 show ?case by (auto simp: dict_keys_dict_set)
qed

lemma er_edge_None:
  "er_edge m r = None \<longleftrightarrow>
     er_entity_of (r_from r) \<notin> set (dict_keys m) \<or> er_entity_of (r_to r) \<notin> set (dict_keys m)"
  by (auto simp: er_edge_def dict_get_None_iff [symmetric] split: option.splits)

lemma nodes_edges_er_eq:
  "\<exists>ns. nodes_edges_er d =
          Inr \<lparr>s_title = er_title d, s_direction = er_direction d, s_nodes = ns,
               s_edges = List.map_filter (er_edge (er_name_to_id d)) (er_relations d)\<rparr>
        \<and> map n_id ns = map (\<lambda>j. ''E'' @ str_nat (Suc j)) [0..<length (er_entities d)]"
proof -
  obtain m ns where l: "er_entities_loop 1 (er_entities d) ([], []) = (m, ns)"
    by (cases "er_entities_loop 1 (er_entities d) ([], [])")
  from er_entities_loop_effect [OF l]
  have "map n_id ns = map (\<lambda>j. ''E'' @ str_nat (Suc j)) [0..<length (er_entities d)]"
    by simp
  with l show ?thesis
    by (simp add: nodes_edges_er_def er_name_to_id_def er_relations_loop_eq)
qed

lemma er_name_to_id_keys: "set (dict_keys (er_name_to_id d)) = en_name ` set (er_entities d)"
proof -
  obtain m ns where l: "er_entities_loop 1 (er_entities d) ([], []) = (m, ns)"
    by (cases "er_entities_loop 1 (er_entities d) ([], [])")
  from er_entities_loop_effect [OF l] l show ?thesis
    by (simp add: er_name_to_id_def dict_keys_def)
qed

text \<open>
  Claim C1, as amended. \<open>build_graph\<close> never drops an edge of a node/edge specification
  for naming an undeclared endpoint: after it every endpoint of every edge is a key of
  \<open>nodes_by_id\<close>, an undeclared one bound to a placeholder node (shape rect, label equal to
  the id), a declared one to a declared node; the edge list of the specification is not
  touched. The entity-relation converter \<open>nodes_edges_er\<close>, which runs before, has no such
  mechanism: it returns one node per declared entity and one edge per relation whose two
  entities are declared, and a relation that names an undeclared entity yields no edge.
\<close>

theorem graph_builder_edges:
  "(build_graph spec = (nodes_by_id, indegree) \<longrightarrow>
      (\<forall>e\<in>set (s_edges spec).
          e_from e \<in> set (dict_keys nodes_by_id) \<and> e_to e \<in> set (dict_keys nodes_by_id))
      \<and> (\<forall>i\<in>set (dict_keys nodes_by_id). i \<notin> n_id ` set (s_nodes spec) \<longrightarrow>
            dict_get nodes_by_id i
              = Some \<lparr>n_id = i, n_label = i, n_shape = ''rect'', n_html = True\<rparr>)
      \<and> (\<forall>i\<in>n_id ` set (s_nodes spec).
            \<exists>n\<in>set (s_nodes spec). n_id n = i \<and> dict_get nodes_by_id i = Some n))
   \<and> (\<exists>ns. nodes_edges_er d =
              Inr \<lparr>s_title = er_title d, s_direction = er_direction d, s_nodes = ns,
                   s_edges = List.map_filter (er_edge (er_name_to_id d)) (er_relations d)\<rparr>
            \<and> map n_id ns = map (\<lambda>j. ''E'' @ str_nat (Suc j)) [0..<length (er_entities d)])
   \<and> (er_edge (er_name_to_id d) r = None \<longleftrightarrow>
        er_entity_of (r_from r) \<notin> en_name ` set (er_entities d)
        \<or> er_entity_of (r_to r) \<notin> en_name ` set (er_entities d))"
proof (intro conjI impI)
  assume bg: "build_graph spec = (nodes_by_id, indegree)"
  note n = build_graph_nodes [OF bg]
  from n(1) show "\<forall>e\<in>set (s_edges spec).
      e_from e \<in> set (dict_keys nodes_by_id) \<and> e_to e \<in> set (dict_keys nodes_by_id)"
    by auto
  from n(4) show "\<forall>i\<in>set (dict_keys nodes_by_id). i \<notin> n_id ` set (s_nodes spec) \<longrightarrow>
      dict_get nodes_by_id i = Some \<lparr>n_id = i, n_label = i, n_shape = ''rect'', n_html = True\<rparr>"
    by (simp add: placeholder_def)
  from n(3) show "\<forall>i\<in>n_id ` set (s_nodes spec).
      \<exists>n\<in>set (s_nodes spec). n_id n = i \<and> dict_get nodes_by_id i = Some n"
    by blast
next
  show "\<exists>ns. nodes_edges_er d =
              Inr \<lparr>s_title = er_title d, s_direction = er_direction d, s_nodes = ns,
                   s_edges = List.map_filter (er_edge (er_name_to_id d)) (er_relations d)\<rparr>
            \<and> map n_id ns = map (\<lambda>j. ''E'' @ str_nat (Suc j)) [0..<length (er_entities d)]"
    by (rule nodes_edges_er_eq)
next
  show "er_edge (er_name_to_id d) r = None \<longleftrightarrow>
        er_entity_of (r_from r) \<notin> en_name ` set (er_entities d)
        \<or> er_entity_of (r_to r) \<notin> en_name ` set (er_entities d)"
    by (simp add: er_edge_None er_name_to_id_keys)
qed

theorem graph_builder_edges_witness:
  "build_graph \<lparr>s_title = [], s_direction = ''TD'',
       s_nodes = [\<lparr>n_id = ''a'', n_label = ''A'', n_shape = ''round'', n_html = False\<rparr>],
       s_edges = [\<lparr>e_from = ''a'', e_to = ''b'', e_label = []\<rparr>,
                  \<lparr>e_from = ''c'', e_to = ''a'', e_label = []\<rparr>]\<rparr>
     = ([(''a'', \<lparr>n_id = ''a'', n_label = ''A'', n_shape = ''round'', n_html = False\<rparr>),
         (''b'', \<lparr>n_id = ''b'', n_label = ''b'', n_shape = ''rect'', n_html = True\<rparr>),
         (''c'', \<lparr>n_id = ''c'', n_label = ''c'', n_shape = ''rect'', n_html = True\<rparr>)],
        [(''a'', 1), (''b'', 1), (''c'', 0)])
   \<and> nodes_edges_er \<lparr>er_title = ''t'', er_direction = ''TD'',
         er_entities = [\<lparr>en_name = ''Users'', en_attributes = []\<rparr>,
                        \<lparr>en_name = ''Auth'', en_attributes = []\<rparr>],
         er_relations = [\<lparr>r_from = ''Users.id'', r_to = ''Auth.user_id'',
                           r_cardinality = ''1:N'', r_name = ''has_auth''\<rparr>]\<rparr>
     = Inr \<lparr>s_title = ''t'', s_direction = ''TD'',
            s_nodes = [\<lparr>n_id = ''E1'', n_label = ''<b>Users</b><hr/><i>(sem atributos)</i>'',
                         n_shape = ''rect'', n_html = True\<rparr>,
                       \<lparr>n_id = ''E2'', n_label = ''<b>Auth</b><hr/><i>(sem atributos)</i>'',
                         n_shape = ''rect'', n_html = True\<rparr>],
            s_edges = [\<lparr>e_from = ''E1'', e_to = ''E2'', e_label = ''has_auth (1:N)''\<rparr>]\<rparr>"
proof -
  let ?spec = "\<lparr>s_title = [], s_direction = ''TD'',
       s_nodes = [\<lparr>n_id = ''a'', n_label = ''A'', n_shape = ''round'', n_html = False\<rparr>],
       s_edges = [\<lparr>e_from = ''a'', e_to = ''b'', e_label = []\<rparr>,
                  \<lparr>e_from = ''c'', e_to = ''a'', e_label = []\<rparr>]\<rparr>"
  let ?nb = "[(''a'', \<lparr>n_id = ''a'', n_label = ''A'', n_shape = ''round'', n_html = False\<rparr>),
         (''b'', \<lparr>n_id = ''b'', n_label = ''b'', n_shape = ''rect'', n_html = True\<rparr>),
         (''c'', \<lparr>n_id = ''c'', n_label = ''c'', n_shape = ''rect'', n_html = True\<rparr>)]"
  let ?d = "\<lparr>er_title = ''t'', er_direction = ''TD'',
         er_entities = [\<lparr>en_name = ''Users'', en_attributes = []\<rparr>,
                        \<lparr>en_name = ''Auth'', en_attributes = []\<rparr>],
         er_relations = [\<lparr>r_from = ''Users.id'', r_to = ''Auth.user_id'',
                           r_cardinality = ''1:N'', r_name = ''has_auth''\<rparr>]\<rparr>"
  have 1: "build_graph ?spec = (?nb, [(''a'', 1), (''b'', 1), (''c'', 0)])"
    by code_simp
  have 2: "nodes_edges_er ?d
     = Inr \<lparr>s_title = ''t'', s_direction = ''TD'',
            s_nodes = [\<lparr>n_id = ''E1'', n_label = ''<b>Users</b><hr/><i>(sem atributos)</i>'',
                         n_shape = ''rect'', n_html = True\<rparr>,
                       \<lparr>n_id = ''E2'', n_label = ''<b>Auth</b><hr/><i>(sem atributos)</i>'',
                         n_shape = ''rect'', n_html = True\<rparr>],
            s_edges = [\<lparr>e_from = ''E1'', e_to = ''E2'', e_label = ''has_auth (1:N)''\<rparr>]\<rparr>"
    by code_simp
  from graph_builder_edges [of ?spec ?nb "[(''a'', 1), (''b'', 1), (''c'', 0)]" ?d] 1 2
  show ?thesis by simp
qed

theorem nodes_edges_er_drops_counterexample:
  "er_entity_of ''Auth.user_id'' = ''Auth''
   \<and> nodes_edges_er \<lparr>er_title = ''t'', er_direction = ''TD'',
         er_entities = [\<lparr>en_name = ''Users'', en_attributes = []\<rparr>],
         er_relations = [\<lparr>r_from = ''Users.id'', r_to = ''Auth.user_id'',
                           r_cardinality = ''1:N'', r_name = ''has_auth''\<rparr>]\<rparr>
     = Inr \<lparr>s_title = ''t'', s_direction = ''TD'',
            s_nodes = [\<lparr>n_id = ''E1'', n_label = ''<b>Users</b><hr/><i>(sem atributos)</i>'',
                         n_shape = ''rect'', n_html = True\<rparr>],
            s_edges = []\<rparr>"
  by code_simp

subsection \<open>Breadth-first traversal\<close>

lemma adj_get_dict_set:
  "adj_get (dict_set adj k vs) u = (if u = k then vs else adj_get adj u)"
  by (simp add: adj_get_def dict_get_dict_set)

lemma build_adj_fold:
  "adj_get (fold (\<lambda>e adj. dict_set adj (e_from e) (adj_get adj (e_from e) @ [e_to e])) es acc) u
     = adj_get acc u @ map e_to (filter (\<lambda>e. e_from e = u) es)"
  by (induction es arbitrary: acc) (auto simp: adj_get_dict_set)

lemma adj_get_build_adj: "adj_get (build_adj es) u = map e_to (filter (\<lambda>e. e_from e = u) es)"
  by (simp add: build_adj_def build_adj_fold) (simp add: adj_get_def dict_get_def)

lemma adj_rel_build_adj: "adj_rel (build_adj (s_edges spec)) = edge_rel spec"
  by (auto simp: adj_rel_def edge_rel_def adj_get_build_adj)

lemma bfs_visit_effect:
  assumes "u \<in> set (dict_keys dist)" and "distinct (dict_keys dist)"
  shows "\<exists>q' dist' vis'. bfs_visit u vs (q, dist, vis) = Inr (q', dist', vis')
       \<and> vis' = vis \<union> set vs
       \<and> set (dict_keys dist') = set (dict_keys dist) \<union> (set vs - vis)
       \<and> set q' = set q \<union> (set vs - vis)
       \<and> distinct (dict_keys dist')"
  using assms
proof (induction vs arbitrary: q dist vis)
  case Nil
  then show ?case by simp
next
  case (Cons v vs)
  show ?case
  proof (cases "v \<in> vis")
    case True
    with Cons.IH [OF Cons.prems, of q vis] show ?thesis by auto
  next
    case False
    from Cons.prems(1) obtain du where du: "dict_get dist u = Some du"
      by (metis dict_get_None_iff option.exhaust)
    let ?dist = "dict_set dist v (du + 1)"
    have "u \<in> set (dict_keys ?dist)" "distinct (dict_keys ?dist)"
      using Cons.prems by (simp_all add: dict_keys_dict_set distinct_dict_set)
    from Cons.IH [OF this, of "q @ [v]" "insert v vis"] False du
    show ?thesis by (auto simp: dict_keys_dict_set)
  qed
qed

lemma rtrancl_image_closed: "R `` S \<subseteq> S \<Longrightarrow> R\<^sup>* `` S = S"
proof
  assume c: "R `` S \<subseteq> S"
  show "R\<^sup>* `` S \<subseteq> S"
  proof
    fix y assume "y \<in> R\<^sup>* `` S"
    then obtain x where "x \<in> S" "(x, y) \<in> R\<^sup>*" by auto
    from this(2) this(1) show "y \<in> S"
      by (induction rule: rtrancl_induct) (use c in auto)
  qed
qed auto

lemma rtrancl_image_step:
  assumes "u \<in> S"
  shows "R\<^sup>* `` (S \<union> R `` {u}) = R\<^sup>* `` S"
proof
  show "R\<^sup>* `` (S \<union> R `` {u}) \<subseteq> R\<^sup>* `` S"
  proof
    fix y assume "y \<in> R\<^sup>* `` (S \<union> R `` {u})"
    then obtain x where x: "x \<in> S \<union> R `` {u}" "(x, y) \<in> R\<^sup>*" by auto
    show "y \<in> R\<^sup>* `` S"
    proof (cases "x \<in> S")
      case True
      with x show ?thesis by auto
    next
      case False
      with x have "(u, x) \<in> R" by auto
      with x(2) have "(u, y) \<in> R\<^sup>*" by (meson converse_rtrancl_into_rtrancl)
      with assms show ?thesis by auto
    qed
  qed
qed auto

lemma bfs_reach:
  assumes "vis = set (dict_keys dist)" and "set q \<subseteq> vis" and "distinct (dict_keys dist)"
    and "\<forall>w\<in>vis - set q. adj_rel adj `` {w} \<subseteq> vis"
  shows "\<exists>d. bfs adj (q, dist, vis) = Inr d \<and> set (dict_keys d) = (adj_rel adj)\<^sup>* `` vis
       \<and> distinct (dict_keys d)"
  using assms
proof (induction adj "(q, dist, vis)" arbitrary: q dist vis rule: bfs.induct)
  case (1 adj dist vis)
  then have "adj_rel adj `` vis \<subseteq> vis" by auto
  then have "(adj_rel adj)\<^sup>* `` vis = vis" by (rule rtrancl_image_closed)
  with 1 show ?case by simp
next
  case (2 adj u q dist vis)
  from "2.prems" have u: "u \<in> set (dict_keys dist)" by auto
  from bfs_visit_effect [OF u "2.prems"(3), of "adj_get adj u" q vis]
  obtain q' dist' vis' where v: "bfs_visit u (adj_get adj u) (q, dist, vis) = Inr (q', dist', vis')"
    and vis': "vis' = vis \<union> set (adj_get adj u)"
    and keys': "set (dict_keys dist') = set (dict_keys dist) \<union> (set (adj_get adj u) - vis)"
    and q': "set q' = set q \<union> (set (adj_get adj u) - vis)"
    and d': "distinct (dict_keys dist')"
    by blast
  have adj_u: "adj_rel adj `` {u} = set (adj_get adj u)" by (auto simp: adj_rel_def)
  have a: "vis' = set (dict_keys dist')" using vis' keys' "2.prems"(1) by auto
  have b: "set q' \<subseteq> vis'" using q' vis' "2.prems"(2) by auto
  have c: "\<forall>w\<in>vis' - set q'. adj_rel adj `` {w} \<subseteq> vis'"
  proof
    fix w assume w: "w \<in> vis' - set q'"
    with vis' q' have "w \<in> vis" "w \<notin> set q" by auto
    show "adj_rel adj `` {w} \<subseteq> vis'"
    proof (cases "w = u")
      case True
      then show ?thesis using adj_u vis' by auto
    next
      case False
      with \<open>w \<in> vis\<close> \<open>w \<notin> set q\<close> "2.prems"(4) have "adj_rel adj `` {w} \<subseteq> vis" by auto
      with vis' show ?thesis by auto
    qed
  qed
  from "2.hyps" [OF v a b d' c]
  obtain d where d: "bfs adj (q', dist', vis') = Inr d"
    "set (dict_keys d) = (adj_rel adj)\<^sup>* `` vis'" "distinct (dict_keys d)"
    by blast
  have "u \<in> vis" using "2.prems"(1,2) by auto
  then have "(adj_rel adj)\<^sup>* `` vis' = (adj_rel adj)\<^sup>* `` vis"
    unfolding vis' adj_u [symmetric] by (rule rtrancl_image_step)
  with d v show ?case by simp
qed

subsection \<open>Roots of the traversal\<close>

lemma distinct_setdefault:
  "distinct (dict_keys d) \<Longrightarrow> distinct (dict_keys (dict_setdefault d k v))"
  by (simp add: dict_setdefault_def dict_keys_def)

lemma distinct_of_pairs_fold:
  "distinct (dict_keys acc) \<Longrightarrow> distinct (dict_keys (fold (\<lambda>(k, v) d. dict_set d k v) ps acc))"
  by (induction ps arbitrary: acc) (auto simp: distinct_dict_set)

lemma distinct_of_pairs: "distinct (dict_keys (dict_of_pairs ps))"
  unfolding dict_of_pairs_def by (rule distinct_of_pairs_fold) (simp add: dict_keys_def)

lemma dict_get_distinct: "distinct (dict_keys d) \<Longrightarrow> dict_get d k = Some v \<longleftrightarrow> (k, v) \<in> set d"
  by (simp add: dict_get_def dict_keys_def)

lemma build_graph_loop_indegree:
  assumes "set (dict_keys nb) = set (dict_keys ind)" and "distinct (dict_keys ind)"
    and "build_graph_loop es (nb, ind) = (nb', ind')"
  shows "distinct (dict_keys ind')
       \<and> (\<forall>i. indeg ind' i = indeg ind i + length (filter (\<lambda>e. e_to e = i) es))"
  using assms
proof (induction es arbitrary: nb ind)
  case Nil
  then show ?case by simp
next
  case (Cons e es)
  define nb1 where "nb1 = (case dict_get ind (e_to e) of Some d \<Rightarrow> nb
                           | None \<Rightarrow> dict_setdefault nb (e_to e) (placeholder (e_to e)))"
  define ind1 where "ind1 = (case dict_get ind (e_to e) of Some d \<Rightarrow> dict_set ind (e_to e) (d + 1)
                           | None \<Rightarrow> dict_set ind (e_to e) 1)"
  define nb2 where "nb2 = (if e_from e \<notin> set (dict_keys nb1)
                           then dict_setdefault nb1 (e_from e) (placeholder (e_from e)) else nb1)"
  define ind2 where "ind2 = (if e_from e \<notin> set (dict_keys nb1)
                           then dict_setdefault ind1 (e_from e) 0 else ind1)"
  have step: "build_graph_loop (e # es) (nb, ind) = build_graph_loop es (nb2, ind2)"
    by (simp add: nb1_def ind1_def nb2_def ind2_def split: option.splits)
  have k1: "set (dict_keys nb1) = insert (e_to e) (set (dict_keys nb))"
    and i1: "set (dict_keys ind1) = set (dict_keys nb1)"
    using Cons.prems(1)
    by (auto simp: nb1_def ind1_def dict_keys_setdefault dict_keys_dict_set
        dict_get_None_iff dest: dict_get_Some_keys split: option.splits)
  have d1: "distinct (dict_keys ind1)"
    using Cons.prems(2) by (simp add: ind1_def distinct_dict_set split: option.splits)
  have c1: "indeg ind1 i = indeg ind i + (if e_to e = i then 1 else 0)" for i
    by (auto simp: ind1_def indeg_def dict_get_dict_set split: option.splits)
  have i2: "set (dict_keys ind2) = set (dict_keys nb2)"
    using i1 by (auto simp: nb2_def ind2_def dict_keys_setdefault)
  have d2: "distinct (dict_keys ind2)"
    using d1 by (simp add: ind2_def distinct_setdefault)
  have c2: "indeg ind2 i = indeg ind1 i" for i
    by (auto simp: ind2_def indeg_def dict_get_setdefault split: option.splits
        dest: dict_get_Some_keys)
  from Cons.prems(3) step have "build_graph_loop es (nb2, ind2) = (nb', ind')" by simp
  from Cons.IH [OF i2 [symmetric] d2 this] c1 c2 show ?case by auto
qed

lemma build_graph_indegree:
  assumes "build_graph spec = (nodes_by_id, indegree)"
  shows "distinct (dict_keys indegree)"
    and "dict_get indegree i = Some d \<longleftrightarrow>
           i \<in> set (dict_keys nodes_by_id) \<and> d = length (filter (\<lambda>e. e_to e = i) (s_edges spec))"
proof -
  define nb where "nb = dict_of_pairs (map (\<lambda>n. (n_id n, n)) (s_nodes spec))"
  define ind where "ind = map (\<lambda>nid. (nid, 0 :: nat)) (dict_keys nb)"
  have eq: "set (dict_keys nb) = set (dict_keys ind)"
    by (simp add: ind_def dict_keys_def comp_def)
  have di: "distinct (dict_keys ind)"
    using distinct_of_pairs [of "map (\<lambda>n. (n_id n, n)) (s_nodes spec)"]
    by (simp add: ind_def nb_def dict_keys_def comp_def)
  have z: "indeg ind i = 0" for i
    by (auto simp: indeg_def ind_def dict_get_def split: option.splits dest!: map_of_SomeD)
  from assms have l: "build_graph_loop (s_edges spec) (nb, ind) = (nodes_by_id, indegree)"
    by (simp add: build_graph_def nb_def ind_def Let_def)
  from build_graph_loop_indegree [OF eq di l] z
  have d: "distinct (dict_keys indegree)"
    and c: "indeg indegree i = length (filter (\<lambda>e. e_to e = i) (s_edges spec))" for i
    by simp_all
  show "distinct (dict_keys indegree)" by (rule d)
  have k: "set (dict_keys indegree) = set (dict_keys nodes_by_id)"
    using build_graph_nodes(2) [OF assms] .
  show "dict_get indegree i = Some d \<longleftrightarrow>
      i \<in> set (dict_keys nodes_by_id) \<and> d = length (filter (\<lambda>e. e_to e = i) (s_edges spec))"
  proof (cases "dict_get indegree i")
    case None
    then have "i \<notin> set (dict_keys nodes_by_id)" using k by (simp add: dict_get_None_iff)
    with None show ?thesis by simp
  next
    case (Some c')
    with c [of i] have "c' = length (filter (\<lambda>e. e_to e = i) (s_edges spec))"
      by (simp add: indeg_def)
    with Some k show ?thesis by (auto dest: dict_get_Some_keys)
  qed
qed

lemma initial_queue_roots:
  assumes "build_graph spec = (nodes_by_id, indegree)"
  shows "initial_queue nodes_by_id indegree =
           (if graph_ids spec = [] then Inl StopIteration
            else Inr (if filter (\<lambda>(nid, d). d = 0) indegree \<noteq> []
                      then map fst (filter (\<lambda>(nid, d). d = 0) indegree)
                      else take 1 (graph_ids spec)))"
    and "graph_ids spec \<noteq> [] \<Longrightarrow>
         set (if filter (\<lambda>(nid, d). d = 0) indegree \<noteq> []
              then map fst (filter (\<lambda>(nid, d). d = 0) indegree)
              else take 1 (graph_ids spec)) = layout_roots spec"
proof -
  have ids: "graph_ids spec = dict_keys nodes_by_id"
    by (simp add: graph_ids_def assms)
  have k: "set (dict_keys indegree) = set (dict_keys nodes_by_id)"
    using build_graph_nodes(2) [OF assms] .
  note ind = build_graph_indegree [OF assms]
  have zero: "set (map fst (filter (\<lambda>(nid, d). d = 0) indegree))
      = {i \<in> set (graph_ids spec). i \<notin> e_to ` set (s_edges spec)}" (is "?L = ?R")
  proof -
    have "i \<in> ?L \<longleftrightarrow> dict_get indegree i = Some 0" for i
      using dict_get_distinct [OF ind(1), of i 0] by force
    moreover have "dict_get indegree i = Some 0 \<longleftrightarrow> i \<in> ?R" for i
      unfolding ind(2) ids by (auto simp: filter_empty_conv)
    ultimately show ?thesis by blast
  qed
  show "initial_queue nodes_by_id indegree =
           (if graph_ids spec = [] then Inl StopIteration
            else Inr (if filter (\<lambda>(nid, d). d = 0) indegree \<noteq> []
                      then map fst (filter (\<lambda>(nid, d). d = 0) indegree)
                      else take 1 (graph_ids spec)))"
  proof (cases "filter (\<lambda>(nid, d). d = 0) indegree = []")
    case True
    then show ?thesis
      by (cases "dict_keys nodes_by_id") (simp_all add: initial_queue_def ids)
  next
    case False
    then have "set (map fst (filter (\<lambda>(nid, d). d = 0) indegree)) \<noteq> {}"
      by (auto simp: filter_empty_conv)
    with zero have "graph_ids spec \<noteq> []" by auto
    with False show ?thesis by (simp add: initial_queue_def)
  qed
  show "set (if filter (\<lambda>(nid, d). d = 0) indegree \<noteq> []
              then map fst (filter (\<lambda>(nid, d). d = 0) indegree)
              else take 1 (graph_ids spec)) = layout_roots spec"
  proof (cases "filter (\<lambda>(nid, d). d = 0) indegree = []")
    case True
    then have "set (map fst (filter (\<lambda>(nid, d). d = 0) indegree)) = {}" by simp
    with zero True show ?thesis by (simp add: layout_roots_def)
  next
    case False
    then have "set (map fst (filter (\<lambda>(nid, d). d = 0) indegree)) \<noteq> {}"
      by (auto simp: filter_empty_conv)
    with zero False show ?thesis by (simp add: layout_roots_def Let_def)
  qed
qed

lemma graph_ids_set:
  "set (graph_ids spec)
     = n_id ` set (s_nodes spec) \<union> e_from ` set (s_edges spec) \<union> e_to ` set (s_edges spec)"
  using build_graph_nodes(1) [of spec "fst (build_graph spec)" "snd (build_graph spec)"]
  by (simp add: graph_ids_def)

lemma graph_ids_empty: "graph_ids spec = [] \<longleftrightarrow> s_nodes spec = [] \<and> s_edges spec = []"
  using graph_ids_set [of spec] by (metis Un_empty image_is_empty set_empty)

lemma bfs_dist_reach:
  assumes "s_nodes spec \<noteq> [] \<or> s_edges spec \<noteq> []"
  shows "\<exists>d. bfs_dist spec = Inr d
       \<and> set (dict_keys d) = (edge_rel spec)\<^sup>* `` layout_roots spec
       \<and> distinct (dict_keys d) \<and> d \<noteq> []"
proof -
  obtain nb ind where bg: "build_graph spec = (nb, ind)" by (cases "build_graph spec")
  from assms have ne: "graph_ids spec \<noteq> []" by (simp add: graph_ids_empty)
  define q where "q = (if filter (\<lambda>(nid, d). d = 0) ind \<noteq> []
                      then map fst (filter (\<lambda>(nid, d). d = 0) ind)
                      else take 1 (graph_ids spec))"
  from initial_queue_roots [OF bg] ne
  have iq: "initial_queue nb ind = Inr q" and roots: "set q = layout_roots spec"
    by (simp_all add: q_def)
  have qne: "q \<noteq> []" using ne by (auto simp: q_def)
  let ?dist = "dict_of_pairs (map (\<lambda>nid. (nid, 0 :: nat)) q)"
  have keys: "set q = set (dict_keys ?dist)"
    by (simp add: dict_keys_of_pairs image_image)
  have "\<exists>d. bfs (build_adj (s_edges spec)) (q, ?dist, set q) = Inr d
       \<and> set (dict_keys d) = (adj_rel (build_adj (s_edges spec)))\<^sup>* `` set q
       \<and> distinct (dict_keys d)"
    by (rule bfs_reach) (use keys distinct_of_pairs in auto)
  then obtain d where d: "bfs (build_adj (s_edges spec)) (q, ?dist, set q) = Inr d"
    "set (dict_keys d) = (edge_rel spec)\<^sup>* `` layout_roots spec" "distinct (dict_keys d)"
    by (auto simp: adj_rel_build_adj roots)
  from qne roots have "layout_roots spec \<noteq> {}" by auto
  then have "(edge_rel spec)\<^sup>* `` layout_roots spec \<noteq> {}" by auto
  with d(2) have "d \<noteq> []" by (auto simp: dict_keys_def)
  with d bg iq show ?thesis by (simp add: bfs_dist_def)
qed

lemma bfs_dist_empty:
  "s_nodes spec = [] \<Longrightarrow> s_edges spec = [] \<Longrightarrow> bfs_dist spec = Inl StopIteration"
  by (simp add: bfs_dist_def build_graph_def dict_of_pairs_def dict_keys_def initial_queue_def)

subsection \<open>Positions\<close>

lemma place_td_keys:
  "set (dict_keys (place_td layer i nids pos)) = set (dict_keys pos) \<union> set nids
   \<and> (distinct (dict_keys pos) \<longrightarrow> distinct (dict_keys (place_td layer i nids pos)))"
  by (induction nids arbitrary: i pos) (auto simp: dict_keys_dict_set distinct_dict_set)

lemma place_lr_keys:
  "set (dict_keys (place_lr layer i nids pos)) = set (dict_keys pos) \<union> set nids
   \<and> (distinct (dict_keys pos) \<longrightarrow> distinct (dict_keys (place_lr layer i nids pos)))"
  by (induction nids arbitrary: i pos) (auto simp: dict_keys_dict_set distinct_dict_set)

lemma fold_place_td_keys:
  "set (dict_keys (fold (\<lambda>(layer, nids) pos. place_td layer 0 (sort nids) pos) ls pos))
     = set (dict_keys pos) \<union> layer_members ls
   \<and> (distinct (dict_keys pos) \<longrightarrow>
        distinct (dict_keys (fold (\<lambda>(layer, nids) pos. place_td layer 0 (sort nids) pos) ls pos)))"
proof (induction ls arbitrary: pos)
  case Nil
  show ?case by (simp add: layer_members_def)
next
  case (Cons l ls)
  obtain layer nids where l: "l = (layer, nids)" by (cases l)
  from Cons [of "place_td layer 0 (sort nids) pos"] place_td_keys [of layer 0 "sort nids" pos]
  show ?case by (auto simp: l layer_members_def)
qed

lemma fold_place_lr_keys:
  "set (dict_keys (fold (\<lambda>(layer, nids) pos. place_lr layer 0 (sort nids) pos) ls pos))
     = set (dict_keys pos) \<union> layer_members ls
   \<and> (distinct (dict_keys pos) \<longrightarrow>
        distinct (dict_keys (fold (\<lambda>(layer, nids) pos. place_lr layer 0 (sort nids) pos) ls pos)))"
proof (induction ls arbitrary: pos)
  case Nil
  show ?case by (simp add: layer_members_def)
next
  case (Cons l ls)
  obtain layer nids where l: "l = (layer, nids)" by (cases l)
  from Cons [of "place_lr layer 0 (sort nids) pos"] place_lr_keys [of layer 0 "sort nids" pos]
  show ?case by (auto simp: l layer_members_def)
qed

lemma layer_members_dict_set:
  "layer_members (dict_set ls d ((case dict_get ls d of None \<Rightarrow> [] | Some ns \<Rightarrow> ns) @ [x]))
     = insert x (layer_members ls)"
proof (induction ls)
  case Nil
  show ?case by (simp add: layer_members_def dict_get_def)
next
  case (Cons l ls)
  obtain k ns where l: "l = (k, ns)" by (cases l)
  show ?case
  proof (cases "k = d")
    case True
    then show ?thesis by (auto simp: l layer_members_def dict_get_def)
  next
    case False
    have "layer_members ((k, ns) # ls') = set ns \<union> layer_members ls'" for ls'
      by (simp add: layer_members_def)
    with False Cons show ?thesis by (simp add: l dict_get_def)
  qed
qed

lemma group_layers_fold:
  "layer_members
     (fold (\<lambda>(nid, d) layers.
              dict_set layers d ((case dict_get layers d of None \<Rightarrow> [] | Some ns \<Rightarrow> ns) @ [nid]))
        dist acc)
     = layer_members acc \<union> fst ` set dist"
proof (induction dist arbitrary: acc)
  case Nil
  show ?case by simp
next
  case (Cons p dist)
  obtain nid d where p: "p = (nid, d)" by (cases p)
  show ?case by (simp add: p Cons layer_members_dict_set)
qed

lemma layer_members_group: "layer_members (group_layers dist) = set (dict_keys dist)"
  by (simp add: group_layers_def group_layers_fold dict_keys_def) (simp add: layer_members_def)

lemma layer_members_sort: "layer_members (sort_key f ls) = layer_members ls"
  by (simp add: layer_members_def)

lemma bfs_dist_direction [simp]: "bfs_dist (spec\<lparr>s_direction := d\<rparr>) = bfs_dist spec"
  by (simp add: bfs_dist_def build_graph_def)

lemma graph_ids_direction [simp]: "graph_ids (spec\<lparr>s_direction := d\<rparr>) = graph_ids spec"
  by (simp add: graph_ids_def build_graph_def)

lemma choose_direction_auto_returns:
  "graph_ids spec \<noteq> [] \<Longrightarrow> \<exists>d. choose_direction_auto spec = Inr d"
  using bfs_dist_reach [of spec] by (auto simp: choose_direction_auto_def graph_ids_empty Let_def)

lemma reachable_in_graph: "(edge_rel spec)\<^sup>* `` layout_roots spec \<subseteq> set (graph_ids spec)"
proof
  fix y assume "y \<in> (edge_rel spec)\<^sup>* `` layout_roots spec"
  then obtain x where x: "x \<in> layout_roots spec" and r: "(x, y) \<in> (edge_rel spec)\<^sup>*" by auto
  from x have "x \<in> set (graph_ids spec)"
    by (auto simp: layout_roots_def Let_def split: if_splits dest: in_set_takeD)
  with r show "y \<in> set (graph_ids spec)"
    by (induction rule: rtrancl_induct) (auto simp: edge_rel_def graph_ids_set)
qed

text \<open>
  Claim C2, as amended. For every graph with at least one node, layout returns a position
  map that has at most one entry for a node, and an entry exactly for the nodes the
  breadth-first traversal visits: the nodes that can be reached along edges from the
  roots (the nodes no edge points to or, when there is none, the first node). All of them
  are nodes of the graph. A node that is not visited is given no layer and has no entry
  in the position map.
\<close>

theorem layer_layout_positions:
  assumes "graph_ids spec \<noteq> []"
  shows "\<exists>d pos. layer_layout spec direction = Inr (spec\<lparr>s_direction := d\<rparr>, pos)
       \<and> distinct (dict_keys pos)
       \<and> set (dict_keys pos) = (edge_rel spec)\<^sup>* `` layout_roots spec
       \<and> set (dict_keys pos) \<subseteq> set (graph_ids spec)
       \<and> (\<forall>i\<in>set (graph_ids spec).
             i \<notin> (edge_rel spec)\<^sup>* `` layout_roots spec \<longrightarrow> dict_get pos i = None)"
proof -
  from assms obtain dist where dist: "bfs_dist spec = Inr dist"
    and reach: "set (dict_keys dist) = (edge_rel spec)\<^sup>* `` layout_roots spec"
    using bfs_dist_reach [of spec] by (auto simp: graph_ids_empty)
  obtain d where d: "(case if_truthy direction of None \<Rightarrow> choose_direction_auto spec
                      | Some d \<Rightarrow> Inr d) = Inr d"
    using choose_direction_auto_returns [OF assms] by (cases "if_truthy direction") auto
  define pos where "pos = (if d = ''TD''
       then fold (\<lambda>(layer, nids) pos. place_td layer 0 (sort nids) pos)
              (sort_key fst (group_layers dist)) []
       else fold (\<lambda>(layer, nids) pos. place_lr layer 0 (sort nids) pos)
              (sort_key fst (group_layers dist)) [])"
  have ll: "layer_layout spec direction = Inr (spec\<lparr>s_direction := d\<rparr>, pos)"
    unfolding layer_layout_def d by (simp add: dist pos_def Let_def)
  have keys: "set (dict_keys pos) = set (dict_keys dist)" and dis: "distinct (dict_keys pos)"
    using fold_place_td_keys [of "sort_key fst (group_layers dist)" "[]"]
      fold_place_lr_keys [of "sort_key fst (group_layers dist)" "[]"]
    by (simp_all add: pos_def layer_members_sort layer_members_group) (simp_all add: dict_keys_def)
  have none: "dict_get pos i = None" if "i \<notin> (edge_rel spec)\<^sup>* `` layout_roots spec" for i
    using that keys reach by (simp add: dict_get_None_iff)
  from ll keys dis reach none reachable_in_graph [of spec] show ?thesis by auto
qed

theorem layer_layout_positions_witness:
  "graph_ids (mk_spec [''A'', ''B'', ''C'', ''D''] [(''A'', ''B''), (''A'', ''C'')])
     = [''A'', ''B'', ''C'', ''D'']
   \<and> layer_layout (mk_spec [''A'', ''B'', ''C'', ''D''] [(''A'', ''B''), (''A'', ''C'')]) None
     = Inr (mk_spec [''A'', ''B'', ''C'', ''D''] [(''A'', ''B''), (''A'', ''C'')]
              \<lparr>s_direction := ''TD''\<rparr>,
            [(''A'', 0, 0), (''D'', 440, 0), (''B'', 0, 256), (''C'', 440, 256)])
   \<and> (edge_rel (mk_spec [''A'', ''B'', ''C'', ''D''] [(''A'', ''B''), (''A'', ''C'')]))\<^sup>*
        `` layout_roots (mk_spec [''A'', ''B'', ''C'', ''D''] [(''A'', ''B''), (''A'', ''C'')])
     = set [''A'', ''D'', ''B'', ''C'']"
proof -
  let ?s = "mk_spec [''A'', ''B'', ''C'', ''D''] [(''A'', ''B''), (''A'', ''C'')]"
  let ?pos = "[(''A'', 0, 0), (''D'', 440, 0), (''B'', 0, 256), (''C'', 440, 256)]"
  have 1: "graph_ids ?s = [''A'', ''B'', ''C'', ''D'']" by code_simp
  have 2: "layer_layout ?s None = Inr (?s\<lparr>s_direction := ''TD''\<rparr>, ?pos)"
    by code_simp
  from 1 have "graph_ids ?s \<noteq> []" by simp
  from layer_layout_positions [OF this, of None]
  obtain d pos where l: "layer_layout ?s None = Inr (?s\<lparr>s_direction := d\<rparr>, pos)"
    and k: "set (dict_keys pos) = (edge_rel ?s)\<^sup>* `` layout_roots ?s"
    by blast
  from l have "pos = ?pos" unfolding 2 by simp
  with k have "(edge_rel ?s)\<^sup>* `` layout_roots ?s = set [''A'', ''D'', ''B'', ''C'']"
    by (simp add: dict_keys_def)
  with 1 2 show ?thesis by (simp only: simp_thms)
qed

theorem layer_layout_unvisited_counterexample:
  "graph_ids (mk_spec [''A'', ''B'', ''C''] [(''B'', ''C''), (''C'', ''B'')]) = [''A'', ''B'', ''C'']
   \<and> layer_layout (mk_spec [''A'', ''B'', ''C''] [(''B'', ''C''), (''C'', ''B'')]) None
     = Inr (mk_spec [''A'', ''B'', ''C''] [(''B'', ''C''), (''C'', ''B'')]
              \<lparr>s_direction := ''TD''\<rparr>,
            [(''A'', 0, 0)])
   \<and> dict_get [(''A'', (0 :: int, 0 :: int))] ''B'' = None"
proof -
  let ?s = "mk_spec [''A'', ''B'', ''C''] [(''B'', ''C''), (''C'', ''B'')]"
  have 1: "graph_ids ?s = [''A'', ''B'', ''C'']" by code_simp
  have 2: "layer_layout ?s None = Inr (?s\<lparr>s_direction := ''TD''\<rparr>, [(''A'', 0, 0)])"
    by code_simp
  have 3: "dict_get [(''A'', (0 :: int, 0 :: int))] ''B'' = None" by code_simp
  from 1 2 3 show ?thesis by (simp only: simp_thms)
qed

subsection \<open>Direction\<close>

lemma count_layers_fold:
  assumes "distinct (dict_keys acc)"
  shows "distinct (dict_keys (fold (\<lambda>(nid, d) layers.
             dict_set layers d ((case dict_get layers d of None \<Rightarrow> 0 | Some c \<Rightarrow> c) + 1)) dist acc))
       \<and> set (dict_keys (fold (\<lambda>(nid, d) layers.
             dict_set layers d ((case dict_get layers d of None \<Rightarrow> 0 | Some c \<Rightarrow> c) + 1)) dist acc))
           = set (dict_keys acc) \<union> snd ` set dist
       \<and> (\<forall>k. layer_size (fold (\<lambda>(nid, d) layers.
             dict_set layers d ((case dict_get layers d of None \<Rightarrow> 0 | Some c \<Rightarrow> c) + 1)) dist acc) k
           = layer_size acc k + length (filter (\<lambda>p. snd p = k) dist))"
  using assms
proof (induction dist arbitrary: acc)
  case Nil
  then show ?case by simp
next
  case (Cons p dist)
  obtain nid d where p: "p = (nid, d)" by (cases p)
  let ?acc = "dict_set acc d ((case dict_get acc d of None \<Rightarrow> 0 | Some c \<Rightarrow> c) + 1)"
  have 1: "distinct (dict_keys ?acc)" using Cons.prems by (rule distinct_dict_set)
  have 2: "set (dict_keys ?acc) = insert d (set (dict_keys acc))" by (rule dict_keys_dict_set)
  have 3: "layer_size ?acc k = layer_size acc k + (if d = k then 1 else 0)" for k
    by (simp add: layer_size_def dict_get_dict_set)
  from Cons.IH [OF 1] 2 3 show ?case by (auto simp: p)
qed

lemma count_layers_props:
  "distinct (dict_keys (count_layers dist))"
  "set (dict_keys (count_layers dist)) = snd ` set dist"
  "layer_size (count_layers dist) k = length (filter (\<lambda>p. snd p = k) dist)"
  using count_layers_fold [of "[]" dist]
  by (simp_all add: count_layers_def dict_keys_def layer_size_def dict_get_def)

lemma layer_pop_length:
  assumes "distinct (dict_keys dist)"
  shows "layer_pop dist k = length (filter (\<lambda>p. snd p = k) dist)"
proof -
  have "{n. dict_get dist n = Some k} = fst ` set (filter (\<lambda>p. snd p = k) dist)"
    using dict_get_distinct [OF assms] by force
  moreover have "distinct (map fst (filter (\<lambda>p. snd p = k) dist))"
    using assms by (simp add: dict_keys_def distinct_map_filter)
  then have "card (fst ` set (filter (\<lambda>p. snd p = k) dist)) = length (filter (\<lambda>p. snd p = k) dist)"
    by (metis distinct_card length_map set_map)
  ultimately show ?thesis by (simp add: layer_pop_def)
qed

lemma dict_values_distinct:
  assumes "distinct (dict_keys d)"
  shows "set (map snd d) = (\<lambda>k. the (dict_get d k)) ` set (dict_keys d)"
proof -
  have "snd p = the (dict_get d (fst p))" if "p \<in> set d" for p
    using that dict_get_distinct [OF assms, of "fst p" "snd p"] by simp
  then show ?thesis by (force simp: dict_keys_def)
qed

lemma count_layers_values:
  assumes "distinct (dict_keys dist)"
  shows "set (map snd (count_layers dist)) = layer_pop dist ` snd ` set dist"
proof -
  have "the (dict_get (count_layers dist) k) = layer_pop dist k" if "k \<in> snd ` set dist" for k
  proof -
    from that count_layers_props(2) [of dist]
    obtain c where c: "dict_get (count_layers dist) k = Some c"
      by (metis dict_get_None_iff option.exhaust)
    with count_layers_props(3) [of dist k] have "c = length (filter (\<lambda>p. snd p = k) dist)"
      by (simp add: layer_size_def)
    with c show ?thesis by (simp add: layer_pop_length [OF assms])
  qed
  then show ?thesis
    unfolding dict_values_distinct [OF count_layers_props(1)] count_layers_props(2)
    by (rule image_cong [OF refl])
qed

lemma count_layers_length: "length (count_layers dist) = layer_count dist"
proof -
  have "length (count_layers dist) = length (dict_keys (count_layers dist))"
    by (simp add: dict_keys_def)
  also have "\<dots> = card (set (dict_keys (count_layers dist)))"
    using count_layers_props(1) [of dist] by (simp add: distinct_card)
  finally show ?thesis by (simp add: count_layers_props(2) layer_count_def)
qed

lemma count_layers_Nil: "count_layers dist = [] \<longleftrightarrow> dist = []"
  using count_layers_props(2) [of dist] by (auto simp: dict_keys_def)

lemma choose_direction_auto_rule:
  assumes "graph_ids spec \<noteq> []"
  shows "\<exists>dist. bfs_dist spec = Inr dist \<and> dist \<noteq> []
       \<and> set (dict_keys dist) = (edge_rel spec)\<^sup>* `` layout_roots spec
       \<and> choose_direction_auto spec
           = Inr (if max_pop dist > layer_count dist then ''LR'' else ''TD'')"
proof -
  from assms obtain dist where dist: "bfs_dist spec = Inr dist" "dist \<noteq> []"
    "distinct (dict_keys dist)" "set (dict_keys dist) = (edge_rel spec)\<^sup>* `` layout_roots spec"
    using bfs_dist_reach [of spec] by (auto simp: graph_ids_empty)
  from dist(2) have ne: "count_layers dist \<noteq> []" by (simp add: count_layers_Nil)
  then have len: "length (count_layers dist) \<noteq> 0" by simp
  have "Max (set (map snd (count_layers dist))) = max_pop dist"
    by (simp only: count_layers_values [OF dist(3)] max_pop_def)
  with dist ne len show ?thesis
    by (auto simp: choose_direction_auto_def Let_def count_layers_length)
qed

lemma choose_direction_auto_empty:
  "s_nodes spec = [] \<Longrightarrow> s_edges spec = [] \<Longrightarrow> choose_direction_auto spec = Inl StopIteration"
  by (simp add: choose_direction_auto_def bfs_dist_empty)

text \<open>
  Claim C3. With \<open>max_pop\<close> the largest number of nodes on one layer of the traversal and
  \<open>layer_count\<close> the number of distinct layers, \<open>choose_direction_auto\<close> returns \<open>LR\<close> if
  \<open>max_pop\<close> exceeds \<open>layer_count\<close> and \<open>TD\<close> otherwise, for every graph with at least one
  node; a star of one root and four children gives \<open>LR\<close> and a chain of five nodes \<open>TD\<close>.
  On the graph with no node and no edge the function raises \<open>StopIteration\<close> at
  \<open>next(iter(nodes_by_id))\<close> and returns no direction, although its last line provides for
  empty layers.
\<close>

theorem choose_direction_auto_cases:
  "(graph_ids spec \<noteq> [] \<longrightarrow>
      (\<exists>dist. bfs_dist spec = Inr dist \<and> dist \<noteq> []
          \<and> choose_direction_auto spec
              = Inr (if max_pop dist > layer_count dist then ''LR'' else ''TD'')))
   \<and> graph_ids (mk_spec [] []) = []
   \<and> choose_direction_auto (mk_spec [] []) = Inl StopIteration"
proof -
  have "choose_direction_auto (mk_spec [] []) = Inl StopIteration"
    by (rule choose_direction_auto_empty) (simp_all add: mk_spec_def)
  moreover have "graph_ids (mk_spec [] []) = []"
    by (simp add: graph_ids_empty mk_spec_def)
  ultimately show ?thesis using choose_direction_auto_rule [of spec] by blast
qed

theorem choose_direction_auto_cases_witness:
  "graph_ids (mk_spec [''R'', ''a'', ''b'', ''c'', ''d'']
                [(''R'', ''a''), (''R'', ''b''), (''R'', ''c''), (''R'', ''d'')])
     = [''R'', ''a'', ''b'', ''c'', ''d'']
   \<and> bfs_dist (mk_spec [''R'', ''a'', ''b'', ''c'', ''d'']
                [(''R'', ''a''), (''R'', ''b''), (''R'', ''c''), (''R'', ''d'')])
     = Inr [(''R'', 0), (''a'', 1), (''b'', 1), (''c'', 1), (''d'', 1)]
   \<and> max_pop [(''R'', 0), (''a'', 1), (''b'', 1), (''c'', 1), (''d'', 1)] = 4
   \<and> layer_count [(''R'', 0), (''a'', 1), (''b'', 1), (''c'', 1), (''d'', 1)] = 2
   \<and> choose_direction_auto (mk_spec [''R'', ''a'', ''b'', ''c'', ''d'']
                [(''R'', ''a''), (''R'', ''b''), (''R'', ''c''), (''R'', ''d'')])
     = Inr ''LR''
   \<and> graph_ids (mk_spec [''n1'', ''n2'', ''n3'', ''n4'', ''n5'']
                [(''n1'', ''n2''), (''n2'', ''n3''), (''n3'', ''n4''), (''n4'', ''n5'')])
     = [''n1'', ''n2'', ''n3'', ''n4'', ''n5'']
   \<and> bfs_dist (mk_spec [''n1'', ''n2'', ''n3'', ''n4'', ''n5'']
                [(''n1'', ''n2''), (''n2'', ''n3''), (''n3'', ''n4''), (''n4'', ''n5'')])
     = Inr [(''n1'', 0), (''n2'', 1), (''n3'', 2), (''n4'', 3), (''n5'', 4)]
   \<and> max_pop [(''n1'', 0), (''n2'', 1), (''n3'', 2), (''n4'', 3), (''n5'', 4)] = 1
   \<and> layer_count [(''n1'', 0), (''n2'', 1), (''n3'', 2), (''n4'', 3), (''n5'', 4)] = 5
   \<and> choose_direction_auto (mk_spec [''n1'', ''n2'', ''n3'', ''n4'', ''n5'']
                [(''n1'', ''n2''), (''n2'', ''n3''), (''n3'', ''n4''), (''n4'', ''n5'')])
     = Inr ''TD''"
proof -
  let ?star = "mk_spec [''R'', ''a'', ''b'', ''c'', ''d'']
                [(''R'', ''a''), (''R'', ''b''), (''R'', ''c''), (''R'', ''d'')]"
  let ?chain = "mk_spec [''n1'', ''n2'', ''n3'', ''n4'', ''n5'']
                [(''n1'', ''n2''), (''n2'', ''n3''), (''n3'', ''n4''), (''n4'', ''n5'')]"
  let ?ds = "[(''R'', 0 :: nat), (''a'', 1), (''b'', 1), (''c'', 1), (''d'', 1)]"
  let ?dc = "[(''n1'', 0 :: nat), (''n2'', 1), (''n3'', 2), (''n4'', 3), (''n5'', 4)]"
  have s1: "graph_ids ?star = [''R'', ''a'', ''b'', ''c'', ''d'']" by code_simp
  have s2: "bfs_dist ?star = Inr ?ds" by code_simp
  have s3: "distinct (dict_keys ?ds)" by code_simp
  have s4: "max_pop ?ds = 4"
    unfolding max_pop_def layer_pop_length [OF s3] by code_simp
  have s5: "layer_count ?ds = 2"
    unfolding layer_count_def by code_simp
  have c1: "graph_ids ?chain = [''n1'', ''n2'', ''n3'', ''n4'', ''n5'']" by code_simp
  have c2: "bfs_dist ?chain = Inr ?dc" by code_simp
  have c3: "distinct (dict_keys ?dc)" by code_simp
  have c4: "max_pop ?dc = 1"
    unfolding max_pop_def layer_pop_length [OF c3] by code_simp
  have c5: "layer_count ?dc = 5"
    unfolding layer_count_def by code_simp
  from s1 have "graph_ids ?star \<noteq> []" by simp
  with choose_direction_auto_cases [of ?star] s2 s4 s5
  have s6: "choose_direction_auto ?star = Inr ''LR''" by simp
  from c1 have "graph_ids ?chain \<noteq> []" by simp
  with choose_direction_auto_cases [of ?chain] c2 c4 c5
  have c6: "choose_direction_auto ?chain = Inr ''TD''" by simp
  from s1 s2 s4 s5 s6 c1 c2 c4 c5 c6 show ?thesis by (simp only: simp_thms)
qed

subsection \<open>Serialization\<close>




lemma xml_attr_no_quote: "CHR 0x22 \<notin> set (xml_attr (Some s))"
  by (induction s) (auto simp: xml_attr_chars xml_attr_char_def)

lemma str_nat_no_quote: "CHR 0x22 \<notin> set (str_nat n)"
proof (induction n rule: str_nat.induct)
  case (1 n)
  have d: "digit_char k \<noteq> CHR 0x22" if "k < 10" for k
  proof -
    show ?thesis
    proof
      assume "digit_char k = CHR 0x22"
      then have "(of_char (digit_char k) :: nat) = of_char (CHR 0x22)" by simp
      with that show False by (simp add: digit_char_def)
    qed
  qed
  show ?case
  proof (cases "n < 10")
    case True
    then show ?thesis by (simp add: str_nat.simps [of n] d [THEN not_sym])
  next
    case False
    with "1" d [of "n mod 10", THEN not_sym] show ?thesis by (simp add: str_nat.simps [of n])
  qed
qed

lemma takeWhile_before_quote:
  "CHR 0x22 \<notin> set s \<Longrightarrow> takeWhile (\<lambda>c. c \<noteq> CHR 0x22) (s @ CHR 0x22 # r) = s"
  by (induction s) auto









lemma takeWhile_attr [simp]:
  "takeWhile (\<lambda>x. x \<noteq> CHR 0x22) (xml_attr (Some s) @ CHR 0x22 # r) = xml_attr (Some s)"
  "takeWhile (\<lambda>x. x \<noteq> CHR 0x22) (str_nat n @ CHR 0x22 # r) = str_nat n"
  by (simp_all add: takeWhile_before_quote xml_attr_no_quote str_nat_no_quote)























end
